theory Spec2Isabelle
  imports Main
begin

section \<open>The resource manager of src/resource-manager.ts\<close>

text \<open>
  The class \<open>ResourceManager\<close> keeps a JavaScript \<open>Map\<close> from cache keys to
  \<open>ResourceInfo\<close> objects, creates resources on demand (\<open>getResource\<close>), evicts
  idle ones from a timer (\<open>cleanupInactiveResources\<close>) and tears everything down on
  request (\<open>destroyAllNow\<close>).

  Conventions of the embedding.
  \<^item> \<open>Date.now()\<close> is a parameter \<open>now :: int\<close> (milliseconds; the values are integral
    and far below \<open>2^53\<close>, so the arithmetic of the source is exact on them), and
    \<open>uuidv4()\<close> is a parameter \<open>uuid :: string\<close>.
  \<^item> A promise is represented by the way it settles (\<open>Fulfilled\<close> or \<open>Rejected\<close>).
    The factory of a call is a function from the key to the settlement of the promise
    it returns; an exception thrown by the factory is caught by the same \<open>try\<close> as
    a rejection and is represented by \<open>Rejected\<close> too.
  \<^item> A cleanup function is stored in the map, so it is a value of a type \<open>'c\<close> that
    can be compared, and a parameter \<open>call\<close> of the sweep and of the shutdown says what
    the call \<open>info.cleanupFn(info.resource)\<close> does: it returns a promise, which settles
    one way or the other (\<open>Promised\<close>), or it throws before it returns one (\<open>Threw\<close>;
    a function that does so is still of the declared type
    \<open>(resource: T) => Promise<void>\<close>). The sweep calls inside a \<open>try\<close> and awaits
    there, so for it a throw and a rejection are the same; \<open>destroyAllNow\<close> calls
    outside any \<open>try\<close> and only attaches \<open>catch\<close> to the promise.
  \<^item> Everything a method does besides changing the map is returned as a list of effects,
    in the order of the source: calls of the factory, calls of a cleanup function, and
    calls of the logger (with their level).
  \<^item> An \<open>async\<close> method runs without interruption up to its next \<open>await\<close>. The
    methods are given both in one piece (the awaited promise settles before anything
    else touches the manager) and split at their \<open>await\<close>, so that calls can be
    interleaved.
\<close>

subsection \<open>Promises, thrown values, effects\<close>

text \<open>A thrown value is an \<open>Error\<close> object with its message, or any other value
  with its rendering by \<open>String(...)\<close>.\<close>

datatype thrown = Error string | Thrown_value string

text \<open>\<open>error instanceof Error ? error.message : String(error)\<close>\<close>

fun error_text :: "thrown \<Rightarrow> string" where
  "error_text (Error message) = message"
| "error_text (Thrown_value rendering) = rendering"

datatype 'a settled = Fulfilled 'a | Rejected thrown

text \<open>What a call of a function of type \<open>(x) => Promise<a>\<close> does: it returns a promise
  (given by its settlement) or throws.\<close>

datatype 'a called = Promised "'a settled" | Threw thrown

text \<open>\<open>try { await f(x) } catch (error) { ... }\<close>: a throw of the call and a rejection of
  its promise both end in the \<open>catch\<close> block.\<close>

fun awaited_in_try :: "'a called \<Rightarrow> 'a settled" where
  "awaited_in_try (Promised p) = p"
| "awaited_in_try (Threw error) = Rejected error"

datatype level = Log_error | Log_warn | Log_info | Log_debug

record ('r, 'c) ResourceInfo =
  resource :: 'r
  lastUsed :: int
  instanceId :: string
  resourceType :: string
  cacheKey :: string
  cleanupFn :: 'c

datatype ('r, 'c) effect =
    Factory_called string
  | Cleanup_called string "('r, 'c) ResourceInfo"
  | Logged level

datatype timeout = Timeout

record ('r, 'c) ResourceManager =
  resources :: "(string \<times> ('r, 'c) ResourceInfo) list"
  cleanupIntervalMs :: int
  cleanupTimer :: "timeout option"

subsection \<open>The JavaScript Map\<close>

text \<open>A \<open>Map\<close> iterates in insertion order: \<open>set\<close> on a key that is present replaces
  the value in place, on a new key it appends; \<open>delete\<close> removes the key.\<close>

fun Map_get :: "(string \<times> 'v) list \<Rightarrow> string \<Rightarrow> 'v option" where
  "Map_get [] key = None"
| "Map_get ((k, v) # rest) key = (if k = key then Some v else Map_get rest key)"

fun Map_set :: "(string \<times> 'v) list \<Rightarrow> string \<Rightarrow> 'v \<Rightarrow> (string \<times> 'v) list" where
  "Map_set [] key v = [(key, v)]"
| "Map_set ((k, w) # rest) key v =
     (if k = key then (key, v) # rest else (k, w) # Map_set rest key v)"

fun Map_delete :: "(string \<times> 'v) list \<Rightarrow> string \<Rightarrow> (string \<times> 'v) list" where
  "Map_delete [] key = []"
| "Map_delete ((k, w) # rest) key =
     (if k = key then Map_delete rest key else (k, w) # Map_delete rest key)"

definition Map_keys :: "(string \<times> 'v) list \<Rightarrow> string list" where
  "Map_keys m = map fst m"

text \<open>The keys of a \<open>Map\<close> are pairwise different.\<close>

definition Map_ok :: "(string \<times> 'v) list \<Rightarrow> bool" where
  "Map_ok m \<longleftrightarrow> distinct (Map_keys m)"

subsection \<open>The timer\<close>

definition startCleanupTimer ::
  "('r, 'c) ResourceManager \<Rightarrow> ('r, 'c) effect list \<times> ('r, 'c) ResourceManager" where
  "startCleanupTimer m = ([Logged Log_info], m\<lparr>cleanupTimer := Some Timeout\<rparr>)"

definition stopCleanupTimer ::
  "('r, 'c) ResourceManager \<Rightarrow> ('r, 'c) effect list \<times> ('r, 'c) ResourceManager" where
  "stopCleanupTimer m =
     (case cleanupTimer m of
        Some t \<Rightarrow> ([Logged Log_info], m\<lparr>cleanupTimer := None\<rparr>)
      | None \<Rightarrow> ([], m))"

text \<open>The constructor: \<open>options?.cleanupIntervalMs ?? config.resourceCleanupInterval\<close>,
  then the timer is started.\<close>

definition new_ResourceManager ::
  "int option \<Rightarrow> int \<Rightarrow> ('r, 'c) effect list \<times> ('r, 'c) ResourceManager" where
  "new_ResourceManager options config_resourceCleanupInterval =
     (let m = \<lparr>resources = [],
               cleanupIntervalMs =
                 (case options of Some ms \<Rightarrow> ms | None \<Rightarrow> config_resourceCleanupInterval),
               cleanupTimer = None\<rparr>;
          (started, m') = startCleanupTimer m
      in (started @ [Logged Log_info], m'))"

subsection \<open>getResource\<close>

text \<open>Lines 44 to 63: up to the \<open>await\<close> of the factory. With an entry under the key
  the call returns at once; without one the factory is called and the call waits for
  its promise.\<close>

datatype 'r entered = Returned 'r | Awaiting "'r settled"

definition getResource_enter ::
  "int \<Rightarrow> string \<Rightarrow> string \<Rightarrow> (string \<Rightarrow> 'r settled) \<Rightarrow> ('r, 'c) ResourceManager
     \<Rightarrow> ('r, 'c) effect list \<times> ('r, 'c) ResourceManager \<times> 'r entered" where
  "getResource_enter now key rtype factoryFn m =
     (case Map_get (resources m) key of
        Some existingInfo \<Rightarrow>
          (Logged Log_debug #
             (if resourceType existingInfo \<noteq> rtype then [Logged Log_warn] else []),
           m\<lparr>resources := Map_set (resources m) key (existingInfo\<lparr>lastUsed := now\<rparr>)\<rparr>,
           Returned (resource existingInfo))
      | None \<Rightarrow>
          ([Logged Log_info, Factory_called key], m, Awaiting (factoryFn key)))"

text \<open>Lines 63 to 86: after the promise of the factory has settled.\<close>

definition getResource_resume ::
  "int \<Rightarrow> string \<Rightarrow> string \<Rightarrow> string \<Rightarrow> 'c \<Rightarrow> 'r settled \<Rightarrow> ('r, 'c) ResourceManager
     \<Rightarrow> ('r, 'c) effect list \<times> ('r, 'c) ResourceManager \<times> (thrown + 'r)" where
  "getResource_resume now uuid key rtype cleanup created m =
     (case created of
        Fulfilled newResource \<Rightarrow>
          (let newInfo = \<lparr>resource = newResource, lastUsed = now, instanceId = uuid,
                          resourceType = rtype, cacheKey = key, cleanupFn = cleanup\<rparr>
           in ([Logged Log_info],
               m\<lparr>resources := Map_set (resources m) key newInfo\<rparr>,
               Inr newResource))
      | Rejected error \<Rightarrow>
          ([Logged Log_error], m,
           Inl (Error (''Resource factory function failed for type '' @ rtype @ '': ''
                        @ error_text error))))"

text \<open>The whole call, when nothing else runs while the factory is awaited.\<close>

definition getResource ::
  "int \<Rightarrow> string \<Rightarrow> string \<Rightarrow> string \<Rightarrow> (string \<Rightarrow> 'r settled) \<Rightarrow> 'c
     \<Rightarrow> ('r, 'c) ResourceManager
     \<Rightarrow> ('r, 'c) effect list \<times> ('r, 'c) ResourceManager \<times> (thrown + 'r)" where
  "getResource now uuid key rtype factoryFn cleanup m =
     (case getResource_enter now key rtype factoryFn m of
        (effects, m', Returned r) \<Rightarrow> (effects, m', Inr r)
      | (effects, m', Awaiting created) \<Rightarrow>
          (case getResource_resume now uuid key rtype cleanup created m' of
             (effects', m'', result) \<Rightarrow> (effects @ effects', m'', result)))"

subsection \<open>cleanupInactiveResources\<close>

text \<open>\<open>now - info.lastUsed > this.cleanupIntervalMs\<close>\<close>

definition inactive :: "int \<Rightarrow> int \<Rightarrow> ('r, 'c) ResourceInfo \<Rightarrow> bool" where
  "inactive now interval info \<longleftrightarrow> now - lastUsed info > interval"

text \<open>Lines 114 to 119: the scan.\<close>

definition keysToRemove ::
  "int \<Rightarrow> int \<Rightarrow> (string \<times> ('r, 'c) ResourceInfo) list \<Rightarrow> string list" where
  "keysToRemove now interval rs =
     map fst (filter (\<lambda>(key, info). inactive now interval info) rs)"

text \<open>Lines 137 to 149: after the promise of the cleanup has settled (or the call has
  thrown, which the \<open>try\<close> takes like a rejection). The entry is deleted in the
  \<open>try\<close> block, after the \<open>await\<close>; the \<open>catch\<close> block only logs.\<close>

definition cleanup_settled ::
  "string \<Rightarrow> unit settled \<Rightarrow> (string \<times> ('r, 'c) ResourceInfo) list \<Rightarrow> nat
     \<Rightarrow> ('r, 'c) effect list \<times> (string \<times> ('r, 'c) ResourceInfo) list \<times> nat" where
  "cleanup_settled key outcome rs cleanedCount =
     (case outcome of
        Fulfilled u \<Rightarrow> ([Logged Log_info], Map_delete rs key, cleanedCount + 1)
      | Rejected error \<Rightarrow> ([Logged Log_error], rs, cleanedCount))"

text \<open>Lines 128 to 151: the loop over the keys of the scan, when nothing else runs while
  a cleanup is awaited.\<close>

fun cleanup_loop ::
  "('c \<Rightarrow> 'r \<Rightarrow> unit called) \<Rightarrow> int \<Rightarrow> int \<Rightarrow> string list
     \<Rightarrow> (string \<times> ('r, 'c) ResourceInfo) list \<Rightarrow> nat
     \<Rightarrow> ('r, 'c) effect list \<times> (string \<times> ('r, 'c) ResourceInfo) list \<times> nat" where
  "cleanup_loop call now interval [] rs cleanedCount = ([], rs, cleanedCount)"
| "cleanup_loop call now interval (key # keys) rs cleanedCount =
     (case Map_get rs key of
        None \<Rightarrow> cleanup_loop call now interval keys rs cleanedCount
      | Some info \<Rightarrow>
          if inactive now interval info then
            (case cleanup_settled key
                    (awaited_in_try (call (cleanupFn info) (resource info))) rs cleanedCount of
               (settled, rs', cleanedCount') \<Rightarrow>
                 (case cleanup_loop call now interval keys rs' cleanedCount' of
                    (effects, result) \<Rightarrow>
                      (Logged Log_info # Cleanup_called key info # settled @ effects, result)))
          else cleanup_loop call now interval keys rs cleanedCount)"

text \<open>The loop taken up again after an \<open>await\<close>: the cleanup awaited for \<open>key\<close> has
  settled, \<open>keys\<close> are still to be visited.\<close>

definition cleanup_loop_resume ::
  "('c \<Rightarrow> 'r \<Rightarrow> unit called) \<Rightarrow> int \<Rightarrow> int \<Rightarrow> string \<Rightarrow> unit settled \<Rightarrow> string list
     \<Rightarrow> (string \<times> ('r, 'c) ResourceInfo) list \<Rightarrow> nat
     \<Rightarrow> ('r, 'c) effect list \<times> (string \<times> ('r, 'c) ResourceInfo) list \<times> nat" where
  "cleanup_loop_resume call now interval key outcome keys rs cleanedCount =
     (case cleanup_settled key outcome rs cleanedCount of
        (settled, rs', cleanedCount') \<Rightarrow>
          (case cleanup_loop call now interval keys rs' cleanedCount' of
             (effects, result) \<Rightarrow> (settled @ effects, result)))"

definition cleanupInactiveResources ::
  "('c \<Rightarrow> 'r \<Rightarrow> unit called) \<Rightarrow> int \<Rightarrow> ('r, 'c) ResourceManager
     \<Rightarrow> ('r, 'c) effect list \<times> ('r, 'c) ResourceManager" where
  "cleanupInactiveResources call now m =
     (let keys = keysToRemove now (cleanupIntervalMs m) (resources m)
      in if length keys = 0 then ([Logged Log_debug, Logged Log_debug], m)
         else
           (case cleanup_loop call now (cleanupIntervalMs m) keys (resources m) 0 of
              (effects, rs, cleanedCount) \<Rightarrow>
                ([Logged Log_debug, Logged Log_info] @ effects
                   @ [if cleanedCount > 0 then Logged Log_info else Logged Log_debug],
                 m\<lparr>resources := rs\<rparr>)))"

subsection \<open>destroyAllNow\<close>

text \<open>\<open>promise.catch(handler)\<close> with a handler that logs and returns: the new promise is
  fulfilled either way.\<close>

definition catch_logged :: "unit settled \<Rightarrow> ('r, 'c) effect list \<times> unit settled" where
  "catch_logged p =
     (case p of
        Fulfilled u \<Rightarrow> ([], Fulfilled u)
      | Rejected error \<Rightarrow> ([Logged Log_error], Fulfilled ()))"

text \<open>\<open>Promise.allSettled\<close> is fulfilled with the settlements of its arguments.\<close>

definition allSettled :: "'a settled list \<Rightarrow> 'a settled list settled" where
  "allSettled ps = Fulfilled ps"

text \<open>Lines 168 to 182: the loop that starts the cleanups, in the order of the map. A call
  that returns its promise gets \<open>.catch\<close> attached, and the loop goes on. A call that
  throws ends the loop there: line 174 stands in no \<open>try\<close>. The result is what the loop
  did (the log line and the call of every entry it reached), the promises pushed so far
  (each with what its handler logs), and the thrown value if a call threw.\<close>

fun start_cleanups ::
  "('c \<Rightarrow> 'r \<Rightarrow> unit called) \<Rightarrow> (string \<times> ('r, 'c) ResourceInfo) list
     \<Rightarrow> ('r, 'c) effect list \<times> (('r, 'c) effect list \<times> unit settled) list
         \<times> thrown option" where
  "start_cleanups call [] = ([], [], None)"
| "start_cleanups call ((key, info) # rest) =
     (case call (cleanupFn info) (resource info) of
        Threw error \<Rightarrow> ([Logged Log_info, Cleanup_called key info], [], Some error)
      | Promised p \<Rightarrow>
          (case start_cleanups call rest of
             (started, caught, thrown) \<Rightarrow>
               (Logged Log_info # Cleanup_called key info # started,
                catch_logged p # caught, thrown)))"

text \<open>Lines 164 to 184: the timer is stopped and the cleanups are started. The handlers of
  \<open>catch\<close> run after the loop. The call has then thrown (\<open>Inl\<close>, the promise of
  \<open>destroyAllNow\<close> is rejected) or waits for \<open>Promise.allSettled\<close> of the promises
  (\<open>Inr\<close>).\<close>

definition destroyAllNow_enter ::
  "('c \<Rightarrow> 'r \<Rightarrow> unit called) \<Rightarrow> ('r, 'c) ResourceManager
     \<Rightarrow> ('r, 'c) effect list \<times> ('r, 'c) ResourceManager \<times> (thrown + unit settled list)" where
  "destroyAllNow_enter call m =
     (case stopCleanupTimer m of
        (stopped, m') \<Rightarrow>
          (case start_cleanups call (resources m') of
             (started, caught, thrown) \<Rightarrow>
               (Logged Log_warn # stopped @ started @ concat (map fst caught),
                m',
                (case thrown of
                   Some error \<Rightarrow> Inl error
                 | None \<Rightarrow> Inr (map snd caught)))))"

text \<open>Lines 184 to 190: after \<open>await Promise.allSettled(cleanupPromises)\<close>.\<close>

definition destroyAllNow_resume ::
  "unit settled list settled \<Rightarrow> ('r, 'c) ResourceManager
     \<Rightarrow> ('r, 'c) effect list \<times> ('r, 'c) ResourceManager \<times> (thrown + unit)" where
  "destroyAllNow_resume awaited m =
     (case awaited of
        Fulfilled results \<Rightarrow> ([Logged Log_warn], m\<lparr>resources := []\<rparr>, Inr ())
      | Rejected error \<Rightarrow> ([], m, Inl error))"

text \<open>The whole call, when nothing else runs while the promises are awaited.\<close>

definition destroyAllNow ::
  "('c \<Rightarrow> 'r \<Rightarrow> unit called) \<Rightarrow> ('r, 'c) ResourceManager
     \<Rightarrow> ('r, 'c) effect list \<times> ('r, 'c) ResourceManager \<times> (thrown + unit)" where
  "destroyAllNow call m =
     (case destroyAllNow_enter call m of
        (effects, m', Inl error) \<Rightarrow> (effects, m', Inl error)
      | (effects, m', Inr cleanupPromises) \<Rightarrow>
          (case destroyAllNow_resume (allSettled cleanupPromises) m' of
             (effects', m'', result) \<Rightarrow> (effects @ effects', m'', result)))"

subsection \<open>Sequences of calls\<close>

datatype ('r, 'c) op =
    Acquire int string string string "string \<Rightarrow> 'r settled" 'c
  | Sweep int "'c \<Rightarrow> 'r \<Rightarrow> unit called"
  | Shutdown "'c \<Rightarrow> 'r \<Rightarrow> unit called"

fun run_op ::
  "('r, 'c) op \<Rightarrow> ('r, 'c) ResourceManager
     \<Rightarrow> ('r, 'c) effect list \<times> ('r, 'c) ResourceManager" where
  "run_op (Acquire now uuid key rtype factoryFn cleanup) m =
     (case getResource now uuid key rtype factoryFn cleanup m of
        (effects, m', result) \<Rightarrow> (effects, m'))"
| "run_op (Sweep now call) m = cleanupInactiveResources call now m"
| "run_op (Shutdown call) m =
     (case destroyAllNow call m of (effects, m', result) \<Rightarrow> (effects, m'))"

fun run_ops ::
  "('r, 'c) op list \<Rightarrow> ('r, 'c) ResourceManager
     \<Rightarrow> ('r, 'c) effect list \<times> ('r, 'c) ResourceManager" where
  "run_ops [] m = ([], m)"
| "run_ops (x # xs) m =
     (case run_op x m of
        (effects, m') \<Rightarrow>
          (case run_ops xs m' of (effects', m'') \<Rightarrow> (effects @ effects', m'')))"

text \<open>The entries whose cleanup function was called, in the order of the calls.\<close>

fun cleanup_calls :: "('r, 'c) effect list \<Rightarrow> (string \<times> ('r, 'c) ResourceInfo) list" where
  "cleanup_calls [] = []"
| "cleanup_calls (Cleanup_called key info # rest) = (key, info) # cleanup_calls rest"
| "cleanup_calls (other # rest) = cleanup_calls rest"

fun factory_calls :: "('r, 'c) effect list \<Rightarrow> string list" where
  "factory_calls [] = []"
| "factory_calls (Factory_called key # rest) = key # factory_calls rest"
| "factory_calls (other # rest) = factory_calls rest"

subsection \<open>Instance ids over a sequence of calls\<close>

text \<open>The ids that \<open>uuidv4()\<close> hands to the calls of a sequence, the ids of the stored
  entries, and the ids of the entries whose cleanup function was called. \<open>sweep_rejects\<close>
  says that a sweep calls the cleanup function of the entry with id \<open>i\<close> and the call
  fails (it throws, or its promise is rejected); \<open>rejected_in_run\<close> says that this happens somewhere in a sequence.\<close>

fun op_uuids :: "('r, 'c) op \<Rightarrow> string list" where
  "op_uuids (Acquire now uuid key rtype factoryFn cleanup) = [uuid]"
| "op_uuids (Sweep now call) = []"
| "op_uuids (Shutdown call) = []"

definition uuids_of :: "('r, 'c) op list \<Rightarrow> string list" where
  "uuids_of ops = concat (map op_uuids ops)"

definition instanceIds :: "(string \<times> ('r, 'c) ResourceInfo) list \<Rightarrow> string list" where
  "instanceIds rs = map (\<lambda>(key, info). instanceId info) rs"

definition cleaned :: "('r, 'c) effect list \<Rightarrow> string list" where
  "cleaned effects = instanceIds (cleanup_calls effects)"

fun sweep_rejects :: "string \<Rightarrow> ('r, 'c) op \<Rightarrow> ('r, 'c) ResourceManager \<Rightarrow> bool" where
  "sweep_rejects i (Sweep now call) m \<longleftrightarrow>
     (\<exists>(key, info) \<in> set (resources m).
        instanceId info = i \<and> inactive now (cleanupIntervalMs m) info \<and>
        awaited_in_try (call (cleanupFn info) (resource info)) \<noteq> Fulfilled ())"
| "sweep_rejects i (Acquire now uuid key rtype factoryFn cleanup) m \<longleftrightarrow> False"
| "sweep_rejects i (Shutdown call) m \<longleftrightarrow> False"

fun rejected_in_run :: "string \<Rightarrow> ('r, 'c) op list \<Rightarrow> ('r, 'c) ResourceManager \<Rightarrow> bool" where
  "rejected_in_run i [] m \<longleftrightarrow> False"
| "rejected_in_run i (x # xs) m \<longleftrightarrow>
     sweep_rejects i x m \<or> rejected_in_run i xs (snd (run_op x m))"

text \<open>\<open>shutdown_throws\<close> says that a call of \<open>destroyAllNow\<close> ends by throwing (one of
  the cleanup functions threw before it returned a promise), \<open>thrown_in_run\<close> that this
  happens somewhere in a sequence.\<close>

fun shutdown_throws :: "('r, 'c) op \<Rightarrow> ('r, 'c) ResourceManager \<Rightarrow> bool" where
  "shutdown_throws (Shutdown call) m \<longleftrightarrow> snd (snd (destroyAllNow call m)) \<noteq> Inr ()"
| "shutdown_throws (Acquire now uuid key rtype factoryFn cleanup) m \<longleftrightarrow> False"
| "shutdown_throws (Sweep now call) m \<longleftrightarrow> False"

fun thrown_in_run :: "('r, 'c) op list \<Rightarrow> ('r, 'c) ResourceManager \<Rightarrow> bool" where
  "thrown_in_run [] m \<longleftrightarrow> False"
| "thrown_in_run (x # xs) m \<longleftrightarrow>
     shutdown_throws x m \<or> thrown_in_run xs (snd (run_op x m))"

subsection \<open>Factories and cleanup functions of the examples\<close>

text \<open>A factory whose promise is fulfilled with \<open>r\<close>, one whose promise is rejected with
  \<open>e\<close>; cleanup functions that all succeed, cleanup functions of which the one
  named \<open>bad\<close> returns a promise rejected with \<open>e\<close>, and cleanup functions of which
  the one named \<open>bad\<close> throws \<open>e\<close> before it returns a promise.\<close>

definition factory_returning :: "'r \<Rightarrow> string \<Rightarrow> 'r settled" where
  "factory_returning r key = Fulfilled r"

definition factory_failing :: "thrown \<Rightarrow> string \<Rightarrow> 'r settled" where
  "factory_failing e key = Rejected e"

definition cleanups_succeed :: "'c \<Rightarrow> 'r \<Rightarrow> unit called" where
  "cleanups_succeed c r = Promised (Fulfilled ())"

definition cleanup_fails_for :: "'c \<Rightarrow> thrown \<Rightarrow> 'c \<Rightarrow> 'r \<Rightarrow> unit called" where
  "cleanup_fails_for bad e c r = (if c = bad then Promised (Rejected e) else Promised (Fulfilled ()))"

definition cleanup_throws_for :: "'c \<Rightarrow> thrown \<Rightarrow> 'c \<Rightarrow> 'r \<Rightarrow> unit called" where
  "cleanup_throws_for bad e c r = (if c = bad then Threw e else Promised (Fulfilled ()))"

text \<open>A manager with the interval of 100 ms of the scenarios of the specification.\<close>

definition manager_100 :: "(string, string) ResourceManager" where
  "manager_100 = snd (new_ResourceManager None 100)"

text \<open>Two entries of the examples, the calls that create them, and the managers that
  hold the first and both.\<close>

definition info_A :: "(string, string) ResourceInfo" where
  "info_A = \<lparr>resource = ''r1'', lastUsed = 0, instanceId = ''id-1'',
              resourceType = ''avantage_client'', cacheKey = ''A'', cleanupFn = ''closeA''\<rparr>"

definition info_B :: "(string, string) ResourceInfo" where
  "info_B = \<lparr>resource = ''r2'', lastUsed = 10, instanceId = ''id-2'',
              resourceType = ''avantage_client'', cacheKey = ''B'', cleanupFn = ''closeB''\<rparr>"

definition acquire_A :: "(string, string) op" where
  "acquire_A = Acquire 0 ''id-1'' ''A'' ''avantage_client'' (factory_returning ''r1'') ''closeA''"

definition acquire_B :: "(string, string) op" where
  "acquire_B = Acquire 10 ''id-2'' ''B'' ''avantage_client'' (factory_returning ''r2'') ''closeB''"

definition manager_A :: "(string, string) ResourceManager" where
  "manager_A = snd (run_ops [acquire_A] manager_100)"

definition manager_AB :: "(string, string) ResourceManager" where
  "manager_AB = snd (run_ops [acquire_A, acquire_B] manager_100)"

text \<open>The sweep's view of one key: the entry whose cleanup function it calls there.\<close>

definition visit ::
  "int \<Rightarrow> int \<Rightarrow> (string \<times> ('r, 'c) ResourceInfo) list \<Rightarrow> string
     \<Rightarrow> (string \<times> ('r, 'c) ResourceInfo) list" where
  "visit now interval rs key =
     (case Map_get rs key of
        Some info \<Rightarrow> if inactive now interval info then [(key, info)] else []
      | None \<Rightarrow> [])"

text \<open>The entries a pass of the loop over \<open>keys\<close> leaves in the map.\<close>

definition kept ::
  "('c \<Rightarrow> 'r \<Rightarrow> unit called) \<Rightarrow> int \<Rightarrow> int \<Rightarrow> string set
     \<Rightarrow> string \<times> ('r, 'c) ResourceInfo \<Rightarrow> bool" where
  "kept call now interval keys entry \<longleftrightarrow>
     \<not> (fst entry \<in> keys \<and> inactive now interval (snd entry)
          \<and> awaited_in_try (call (cleanupFn (snd entry)) (resource (snd entry))) = Fulfilled ())"

section \<open>Facts about the map\<close>

lemma Map_get_set:
  "Map_get (Map_set m k v) k' = (if k' = k then Some v else Map_get m k')"
  by (induction m) auto

lemma Map_get_delete:
  "Map_get (Map_delete m k) k' = (if k' = k then None else Map_get m k')"
  by (induction m) auto

lemma Map_delete_filter: "Map_delete m k = filter (\<lambda>(k', v). k' \<noteq> k) m"
  by (induction m) auto

lemma Map_get_None_iff: "Map_get m k = None \<longleftrightarrow> k \<notin> set (Map_keys m)"
  by (induction m) (force simp: Map_keys_def split: if_splits)+

lemma Map_get_Some_mem: "Map_get m k = Some v \<Longrightarrow> (k, v) \<in> set m"
  by (induction m) (auto split: if_splits)

lemma Map_ok_mem_get: "Map_ok m \<Longrightarrow> (k, v) \<in> set m \<Longrightarrow> Map_get m k = Some v"
  by (induction m) (auto simp: Map_ok_def Map_keys_def rev_image_eqI)

lemma Map_keys_set:
  "Map_keys (Map_set m k v) = (if k \<in> set (Map_keys m) then Map_keys m else Map_keys m @ [k])"
  by (induction m) (force simp: Map_keys_def)+

lemma Map_ok_set: "Map_ok m \<Longrightarrow> Map_ok (Map_set m k v)"
  by (simp add: Map_ok_def Map_keys_set)

lemma Map_ok_delete: "Map_ok m \<Longrightarrow> Map_ok (Map_delete m k)"
  by (simp add: Map_ok_def Map_keys_def Map_delete_filter distinct_map_filter)


section \<open>The sweep, when nothing else runs meanwhile\<close>

lemma cleanup_calls_append: "cleanup_calls (xs @ ys) = cleanup_calls xs @ cleanup_calls ys"
  by (induction xs rule: cleanup_calls.induct) auto

lemma cleanup_loop_skip:
  "Map_get rs key = None \<or> (\<exists>info. Map_get rs key = Some info \<and> \<not> inactive now interval info) \<Longrightarrow>
   cleanup_loop call now interval (key # keys) rs n = cleanup_loop call now interval keys rs n"
  by auto

lemma cleanup_loop_fulfilled:
  "Map_get rs key = Some info \<Longrightarrow> inactive now interval info \<Longrightarrow>
   awaited_in_try (call (cleanupFn info) (resource info)) = Fulfilled u \<Longrightarrow>
   cleanup_loop call now interval (key # keys) rs n =
     (Logged Log_info # Cleanup_called key info # Logged Log_info
        # fst (cleanup_loop call now interval keys (Map_delete rs key) (n + 1)),
      snd (cleanup_loop call now interval keys (Map_delete rs key) (n + 1)))"
  by (simp add: cleanup_settled_def split: prod.splits)

lemma cleanup_loop_rejected:
  "Map_get rs key = Some info \<Longrightarrow> inactive now interval info \<Longrightarrow>
   awaited_in_try (call (cleanupFn info) (resource info)) = Rejected e \<Longrightarrow>
   cleanup_loop call now interval (key # keys) rs n =
     (Logged Log_info # Cleanup_called key info # Logged Log_error
        # fst (cleanup_loop call now interval keys rs n),
      snd (cleanup_loop call now interval keys rs n))"
  by (simp add: cleanup_settled_def split: prod.splits)

lemma cleanup_loop_store:
  "Map_ok rs \<Longrightarrow> distinct keys \<Longrightarrow>
   fst (snd (cleanup_loop call now interval keys rs n)) = filter (kept call now interval (set keys)) rs"
proof (induction keys arbitrary: rs n)
  case Nil
  then show ?case by (simp add: kept_def)
next
  case (Cons key keys)
  note IH = Cons.IH[OF _ _] 
  have dk: "distinct keys" and nk: "key \<notin> set keys" using Cons.prems by auto
  consider (skip) "Map_get rs key = None \<or> (\<exists>info. Map_get rs key = Some info \<and> \<not> inactive now interval info)"
    | (ok) info where "Map_get rs key = Some info" "inactive now interval info"
        "awaited_in_try (call (cleanupFn info) (resource info)) = Fulfilled ()"
    | (failed) info e where "Map_get rs key = Some info" "inactive now interval info"
        "awaited_in_try (call (cleanupFn info) (resource info)) = Rejected e"
  proof (cases "Map_get rs key")
    case None
    then show ?thesis using skip by simp
  next
    case (Some info)
    then show ?thesis using skip ok failed
      by (cases "awaited_in_try (call (cleanupFn info) (resource info))"; cases "inactive now interval info") auto
  qed
  then show ?case
  proof cases
    case skip
    have "\<And>x. x \<in> set rs \<Longrightarrow> kept call now interval (set (key # keys)) x = kept call now interval (set keys) x"
    proof -
      fix x assume x: "x \<in> set rs"
      obtain k i where ki: "x = (k, i)" by (cases x)
      show "kept call now interval (set (key # keys)) x = kept call now interval (set keys) x"
      proof (cases "k = key")
        case True
        then have "Map_get rs key = Some i" using x ki Cons.prems(1) Map_ok_mem_get by fastforce
        with skip have "\<not> inactive now interval i" by auto
        then show ?thesis using ki by (simp add: kept_def)
      next
        case False
        then show ?thesis using ki by (simp add: kept_def)
      qed
    qed
    then have "filter (kept call now interval (set (key # keys))) rs = filter (kept call now interval (set keys)) rs"
      by (intro filter_cong) auto
    then show ?thesis
      using cleanup_loop_skip[OF skip, of call keys n] IH[of rs n] Cons.prems(1) dk by simp
  next
    case ok
    have "\<And>x. x \<in> set rs \<Longrightarrow>
        kept call now interval (set (key # keys)) x = (fst x \<noteq> key \<and> kept call now interval (set keys) x)"
    proof -
      fix x assume x: "x \<in> set rs"
      obtain k i where ki: "x = (k, i)" by (cases x)
      show "kept call now interval (set (key # keys)) x = (fst x \<noteq> key \<and> kept call now interval (set keys) x)"
      proof (cases "k = key")
        case True
        then have "Map_get rs key = Some i" using x ki Cons.prems(1) Map_ok_mem_get by fastforce
        with ok have "i = info" by simp
        then show ?thesis using ki True ok by (simp add: kept_def)
      next
        case False
        then show ?thesis using ki by (simp add: kept_def)
      qed
    qed
    then have "filter (kept call now interval (set (key # keys))) rs
        = filter (\<lambda>x. fst x \<noteq> key \<and> kept call now interval (set keys) x) rs"
      by (intro filter_cong) auto
    also have "\<dots> = filter (kept call now interval (set keys)) (Map_delete rs key)"
      by (simp add: Map_delete_filter case_prod_beta conj_commute)
    finally show ?thesis
      using cleanup_loop_fulfilled[where call=call and keys=keys and n=n, OF ok] IH[of "Map_delete rs key" "n + 1"]
        Map_ok_delete[OF Cons.prems(1), of key] dk
      by (simp del: cleanup_loop.simps)
  next
    case failed
    have "\<And>x. x \<in> set rs \<Longrightarrow> kept call now interval (set (key # keys)) x = kept call now interval (set keys) x"
    proof -
      fix x assume x: "x \<in> set rs"
      obtain k i where ki: "x = (k, i)" by (cases x)
      show "kept call now interval (set (key # keys)) x = kept call now interval (set keys) x"
      proof (cases "k = key")
        case True
        then have "Map_get rs key = Some i" using x ki Cons.prems(1) Map_ok_mem_get by fastforce
        with failed have "i = info" by simp
        then show ?thesis using ki True failed by (simp add: kept_def)
      next
        case False
        then show ?thesis using ki by (simp add: kept_def)
      qed
    qed
    then have "filter (kept call now interval (set (key # keys))) rs = filter (kept call now interval (set keys)) rs"
      by (intro filter_cong) auto
    then show ?thesis
      using cleanup_loop_rejected[where call=call and keys=keys and n=n, OF failed] IH[of rs n] Cons.prems(1) dk
      by (simp del: cleanup_loop.simps)
  qed
qed

lemma cleanup_loop_calls:
  "distinct keys \<Longrightarrow>
   cleanup_calls (fst (cleanup_loop call now interval keys rs n)) = concat (map (visit now interval rs) keys)"
proof (induction keys arbitrary: rs n)
  case Nil
  then show ?case by simp
next
  case (Cons key keys)
  have dk: "distinct keys" and nk: "key \<notin> set keys" using Cons.prems by auto
  have same: "concat (map (visit now interval (Map_delete rs key)) keys) = concat (map (visit now interval rs) keys)"
    using nk by (intro arg_cong[where f=concat] map_cong) (auto simp: visit_def Map_get_delete)
  consider (skip) "Map_get rs key = None \<or> (\<exists>info. Map_get rs key = Some info \<and> \<not> inactive now interval info)"
    | (ok) info where "Map_get rs key = Some info" "inactive now interval info"
        "awaited_in_try (call (cleanupFn info) (resource info)) = Fulfilled ()"
    | (failed) info e where "Map_get rs key = Some info" "inactive now interval info"
        "awaited_in_try (call (cleanupFn info) (resource info)) = Rejected e"
  proof (cases "Map_get rs key")
    case None
    then show ?thesis using skip by simp
  next
    case (Some info)
    then show ?thesis using skip ok failed
      by (cases "awaited_in_try (call (cleanupFn info) (resource info))"; cases "inactive now interval info") auto
  qed
  then show ?case
  proof cases
    case skip
    then have "visit now interval rs key = []" by (auto simp: visit_def)
    then show ?thesis
      using cleanup_loop_skip[OF skip, of call keys n] Cons.IH[OF dk, of rs n] by simp
  next
    case ok
    then have "visit now interval rs key = [(key, info)]" by (simp add: visit_def)
    then show ?thesis
      using cleanup_loop_fulfilled[where call=call and keys=keys and n=n, OF ok] Cons.IH[OF dk, of "Map_delete rs key" "n + 1"] same
      by (simp del: cleanup_loop.simps)
  next
    case failed
    then have "visit now interval rs key = [(key, info)]" by (simp add: visit_def)
    then show ?thesis
      using cleanup_loop_rejected[where call=call and keys=keys and n=n, OF failed] Cons.IH[OF dk, of rs n]
      by (simp del: cleanup_loop.simps)
  qed
qed

lemma visit_scan:
  "Map_ok rs \<Longrightarrow> set xs \<subseteq> set rs \<Longrightarrow>
   concat (map (visit now interval rs) (map fst xs)) = filter (\<lambda>(k, info). inactive now interval info) xs"
proof (induction xs)
  case Nil
  then show ?case by simp
next
  case (Cons x xs)
  obtain k info where x: "x = (k, info)" by (cases x)
  then have "Map_get rs k = Some info" using Cons.prems Map_ok_mem_get by fastforce
  then show ?case using Cons x by (simp add: visit_def)
qed

lemma keysToRemove_distinct: "Map_ok rs \<Longrightarrow> distinct (keysToRemove now interval rs)"
  by (simp add: keysToRemove_def Map_ok_def Map_keys_def distinct_map_filter)

lemma sweep_unfold:
  "cleanupInactiveResources call now m =
     (if keysToRemove now (cleanupIntervalMs m) (resources m) = []
      then ([Logged Log_debug, Logged Log_debug], m)
      else ([Logged Log_debug, Logged Log_info]
              @ fst (cleanup_loop call now (cleanupIntervalMs m)
                      (keysToRemove now (cleanupIntervalMs m) (resources m)) (resources m) 0)
              @ [if snd (snd (cleanup_loop call now (cleanupIntervalMs m)
                      (keysToRemove now (cleanupIntervalMs m) (resources m)) (resources m) 0)) > 0
                 then Logged Log_info else Logged Log_debug],
            m\<lparr>resources := fst (snd (cleanup_loop call now (cleanupIntervalMs m)
                      (keysToRemove now (cleanupIntervalMs m) (resources m)) (resources m) 0))\<rparr>))"
  by (simp add: cleanupInactiveResources_def Let_def split: prod.splits)

lemma sweep_calls:
  assumes "Map_ok (resources m)"
  shows "cleanup_calls (fst (cleanupInactiveResources call now m)) =
     filter (\<lambda>(k, info). inactive now (cleanupIntervalMs m) info) (resources m)"
proof -
  let ?iv = "cleanupIntervalMs m"
  let ?keys = "keysToRemove now ?iv (resources m)"
  have d: "distinct ?keys" using assms by (rule keysToRemove_distinct)
  have v: "concat (map (visit now ?iv (resources m)) ?keys)
        = filter (\<lambda>(k, info). inactive now ?iv info) (resources m)"
    unfolding keysToRemove_def using visit_scan[OF assms, of "filter (\<lambda>(key, info). inactive now ?iv info) (resources m)" now ?iv]
    by simp
  show ?thesis
  proof (cases "?keys = []")
    case True
    then show ?thesis using v by (simp add: sweep_unfold)
  next
    case False
    then show ?thesis
      using cleanup_loop_calls[OF d, of call now ?iv "resources m" 0] v
      by (simp add: sweep_unfold cleanup_calls_append)
  qed
qed

lemma sweep_store:
  assumes "Map_ok (resources m)"
  shows "snd (cleanupInactiveResources call now m) =
     m\<lparr>resources := filter (\<lambda>(k, info). \<not> (inactive now (cleanupIntervalMs m) info
                 \<and> awaited_in_try (call (cleanupFn info) (resource info)) = Fulfilled ())) (resources m)\<rparr>"
proof -
  let ?iv = "cleanupIntervalMs m"
  let ?keys = "keysToRemove now ?iv (resources m)"
  have d: "distinct ?keys" using assms by (rule keysToRemove_distinct)
  have mem: "\<And>k info. (k, info) \<in> set (resources m) \<Longrightarrow> inactive now ?iv info \<Longrightarrow> k \<in> set ?keys"
    by (force simp: keysToRemove_def)
  have f: "filter (kept call now ?iv (set ?keys)) (resources m)
      = filter (\<lambda>(k, info). \<not> (inactive now ?iv info
                 \<and> awaited_in_try (call (cleanupFn info) (resource info)) = Fulfilled ())) (resources m)"
    using mem by (intro filter_cong) (auto simp: kept_def)
  show ?thesis
  proof (cases "?keys = []")
    case True
    then have "filter (kept call now ?iv (set ?keys)) (resources m) = resources m"
      by (simp add: kept_def)
    with True f show ?thesis by (simp add: sweep_unfold)
  next
    case False
    then show ?thesis
      using cleanup_loop_store[OF assms d, of call now ?iv 0] f
      by (simp add: sweep_unfold)
  qed
qed

text \<open>The loop in one piece is the loop taken up again once the awaited cleanup has
  settled.\<close>

lemma cleanup_loop_await:
  "Map_get rs key = Some info \<Longrightarrow> inactive now interval info \<Longrightarrow>
   cleanup_loop call now interval (key # keys) rs n =
     (case cleanup_loop_resume call now interval key (awaited_in_try (call (cleanupFn info) (resource info)))
             keys rs n of
        (effects, result) \<Rightarrow> (Logged Log_info # Cleanup_called key info # effects, result))"
  by (simp add: cleanup_loop_resume_def split: prod.splits)

lemma cleanup_loop_active:
  "Map_get rs key = Some info \<Longrightarrow> \<not> inactive now interval info \<Longrightarrow>
   Map_get (fst (snd (cleanup_loop call now interval keys rs n))) key = Some info \<and>
   key \<notin> fst ` set (cleanup_calls (fst (cleanup_loop call now interval keys rs n)))"
proof (induction keys arbitrary: rs n)
  case Nil
  then show ?case by simp
next
  case (Cons k keys)
  consider (skip) "Map_get rs k = None \<or> (\<exists>i. Map_get rs k = Some i \<and> \<not> inactive now interval i)"
    | (ok) i where "Map_get rs k = Some i" "inactive now interval i"
        "awaited_in_try (call (cleanupFn i) (resource i)) = Fulfilled ()"
    | (failed) i e where "Map_get rs k = Some i" "inactive now interval i"
        "awaited_in_try (call (cleanupFn i) (resource i)) = Rejected e"
  proof (cases "Map_get rs k")
    case None
    then show ?thesis using skip by simp
  next
    case (Some i)
    then show ?thesis using skip ok failed
      by (cases "awaited_in_try (call (cleanupFn i) (resource i))"; cases "inactive now interval i") auto
  qed
  then show ?case
  proof cases
    case skip
    then show ?thesis
      using cleanup_loop_skip[OF skip, of call keys n] Cons.IH[OF Cons.prems, of n] by simp
  next
    case ok
    then have ne: "k \<noteq> key" using Cons.prems by auto
    then have "Map_get (Map_delete rs k) key = Some info"
      using Cons.prems by (simp add: Map_get_delete)
    then show ?thesis
      using cleanup_loop_fulfilled[where call=call and keys=keys and n=n, OF ok]
        Cons.IH[of "Map_delete rs k" "n + 1"] Cons.prems(2) ne
      by (simp del: cleanup_loop.simps)
  next
    case failed
    then have ne: "k \<noteq> key" using Cons.prems by auto
    then show ?thesis
      using cleanup_loop_rejected[where call=call and keys=keys and n=n, OF failed]
        Cons.IH[OF Cons.prems, of n]
      by (simp del: cleanup_loop.simps)
  qed
qed

lemma cleanup_loop_calls_live:
  "(key, info) \<in> set (cleanup_calls (fst (cleanup_loop call now interval keys rs n))) \<Longrightarrow>
   Map_get rs key = Some info"
proof (induction keys arbitrary: rs n)
  case Nil
  then show ?case by simp
next
  case (Cons k keys)
  consider (skip) "Map_get rs k = None \<or> (\<exists>i. Map_get rs k = Some i \<and> \<not> inactive now interval i)"
    | (ok) i where "Map_get rs k = Some i" "inactive now interval i"
        "awaited_in_try (call (cleanupFn i) (resource i)) = Fulfilled ()"
    | (failed) i e where "Map_get rs k = Some i" "inactive now interval i"
        "awaited_in_try (call (cleanupFn i) (resource i)) = Rejected e"
  proof (cases "Map_get rs k")
    case None
    then show ?thesis using skip by simp
  next
    case (Some i)
    then show ?thesis using skip ok failed
      by (cases "awaited_in_try (call (cleanupFn i) (resource i))"; cases "inactive now interval i") auto
  qed
  then show ?case
  proof cases
    case skip
    then show ?thesis
      using cleanup_loop_skip[OF skip, of call keys n] Cons.IH[of rs n] Cons.prems by simp
  next
    case ok
    show ?thesis
    proof (cases "(key, info) = (k, i)")
      case True
      then show ?thesis using ok by simp
    next
      case False
      then have "(key, info) \<in> set (cleanup_calls (fst (cleanup_loop call now interval keys (Map_delete rs k) (n + 1))))"
        using Cons.prems cleanup_loop_fulfilled[where call=call and keys=keys and n=n, OF ok]
        by (auto simp del: cleanup_loop.simps)
      then have "Map_get (Map_delete rs k) key = Some info" by (rule Cons.IH)
      then show ?thesis by (simp add: Map_get_delete split: if_splits)
    qed
  next
    case failed
    show ?thesis
    proof (cases "(key, info) = (k, i)")
      case True
      then show ?thesis using failed by simp
    next
      case False
      then have "(key, info) \<in> set (cleanup_calls (fst (cleanup_loop call now interval keys rs n)))"
        using Cons.prems cleanup_loop_rejected[where call=call and keys=keys and n=n, OF failed]
        by (auto simp del: cleanup_loop.simps)
      then show ?thesis by (rule Cons.IH)
    qed
  qed
qed

lemma sweep_calls_live:
  "(key, info) \<in> set (cleanup_calls (fst (cleanupInactiveResources call now m))) \<Longrightarrow>
   Map_get (resources m) key = Some info"
  using cleanup_loop_calls_live[of key info call now "cleanupIntervalMs m"
      "keysToRemove now (cleanupIntervalMs m) (resources m)" "resources m" 0]
  by (simp add: sweep_unfold cleanup_calls_append split: if_splits)

lemma cleanup_calls_caught:
  "cleanup_calls (concat (map fst (fst (snd (start_cleanups call rs))))) = []"
  by (induction rs)
     (auto simp: catch_logged_def cleanup_calls_append case_prod_beta
       split: called.splits settled.splits)

lemma start_cleanups_prefix:
  "\<exists>rest. rs = cleanup_calls (fst (start_cleanups call rs)) @ rest"
  by (induction rs) (auto simp: case_prod_beta split: called.splits)

lemma start_cleanups_all:
  "snd (snd (start_cleanups call rs)) = None \<Longrightarrow>
   cleanup_calls (fst (start_cleanups call rs)) = rs \<and>
   length (fst (snd (start_cleanups call rs))) = length rs"
  by (induction rs) (auto simp: case_prod_beta split: called.splits)

lemma start_cleanups_returned:
  "\<forall>(key, info) \<in> set rs. \<exists>p. call (cleanupFn info) (resource info) = Promised p \<Longrightarrow>
   snd (snd (start_cleanups call rs)) = None"
  by (induction rs) (auto simp: case_prod_beta split: called.splits)

lemma stopCleanupTimer_state: "snd (stopCleanupTimer m) = m\<lparr>cleanupTimer := None\<rparr>"
  by (cases m) (auto simp: stopCleanupTimer_def split: option.splits)

lemma destroyAllNow_unfold:
  "destroyAllNow call m =
     (case snd (snd (start_cleanups call (resources m))) of
        None \<Rightarrow>
          (Logged Log_warn # fst (stopCleanupTimer m)
             @ fst (start_cleanups call (resources m))
             @ concat (map fst (fst (snd (start_cleanups call (resources m)))))
             @ [Logged Log_warn],
           m\<lparr>resources := [], cleanupTimer := None\<rparr>, Inr ())
      | Some error \<Rightarrow>
          (Logged Log_warn # fst (stopCleanupTimer m)
             @ fst (start_cleanups call (resources m))
             @ concat (map fst (fst (snd (start_cleanups call (resources m))))),
           m\<lparr>cleanupTimer := None\<rparr>, Inl error))"
proof -
  have r: "resources (snd (stopCleanupTimer m)) = resources m"
    by (simp add: stopCleanupTimer_state)
  show ?thesis
    by (cases "snd (snd (start_cleanups call (resources m)))")
       (simp_all add: destroyAllNow_def destroyAllNow_enter_def destroyAllNow_resume_def
          allSettled_def case_prod_beta r stopCleanupTimer_state)
qed

lemma cleanup_calls_stopped: "cleanup_calls (fst (stopCleanupTimer m)) = []"
  by (simp add: stopCleanupTimer_def split: option.splits)

lemma destroyAllNow_calls:
  "cleanup_calls (fst (destroyAllNow call m)) =
     cleanup_calls (fst (start_cleanups call (resources m)))"
  by (cases "snd (snd (start_cleanups call (resources m)))")
     (simp_all add: destroyAllNow_unfold cleanup_calls_append cleanup_calls_caught
        cleanup_calls_stopped)

lemma destroyAllNow_calls_prefix:
  "\<exists>rest. resources m = cleanup_calls (fst (destroyAllNow call m)) @ rest"
  unfolding destroyAllNow_calls by (rule start_cleanups_prefix)

lemma destroyAllNow_calls_subset:
  "set (cleanup_calls (fst (destroyAllNow call m))) \<subseteq> set (resources m)"
proof -
  obtain rest where "resources m = cleanup_calls (fst (destroyAllNow call m)) @ rest"
    using destroyAllNow_calls_prefix by blast
  then have "set (resources m) = set (cleanup_calls (fst (destroyAllNow call m))) \<union> set rest"
    by (metis set_append)
  then show ?thesis by blast
qed

lemma destroyAllNow_returned:
  assumes "snd (snd (destroyAllNow call m)) = Inr ()"
  shows "cleanup_calls (fst (destroyAllNow call m)) = resources m"
    and "fst (snd (destroyAllNow call m)) = m\<lparr>resources := [], cleanupTimer := None\<rparr>"
proof -
  have none: "snd (snd (start_cleanups call (resources m))) = None"
    using assms by (cases "snd (snd (start_cleanups call (resources m)))")
      (simp_all add: destroyAllNow_unfold)
  show "cleanup_calls (fst (destroyAllNow call m)) = resources m"
    using start_cleanups_all[OF none] by (simp add: destroyAllNow_calls)
  show "fst (snd (destroyAllNow call m)) = m\<lparr>resources := [], cleanupTimer := None\<rparr>"
    using none by (simp add: destroyAllNow_unfold)
qed

lemma destroyAllNow_store:
  "resources (fst (snd (destroyAllNow call m))) =
     (if snd (snd (destroyAllNow call m)) = Inr () then [] else resources m)"
  by (cases "snd (snd (start_cleanups call (resources m)))")
     (simp_all add: destroyAllNow_unfold)

lemma destroyAllNow_empty:
  "resources m = [] \<Longrightarrow>
   destroyAllNow call m =
     (Logged Log_warn # fst (stopCleanupTimer m) @ [Logged Log_warn],
      m\<lparr>resources := [], cleanupTimer := None\<rparr>, Inr ())"
  by (simp add: destroyAllNow_unfold)

text \<open>When every call returns its promise, rejected or fulfilled, \<open>destroyAllNow\<close> calls
  the cleanup function of every entry, clears the map and returns.\<close>

lemma destroyAllNow_promises:
  assumes "\<forall>(key, info) \<in> set (resources m). \<exists>p. call (cleanupFn info) (resource info) = Promised p"
  shows "cleanup_calls (fst (destroyAllNow call m)) = resources m \<and>
     snd (destroyAllNow call m) = (m\<lparr>resources := [], cleanupTimer := None\<rparr>, Inr ())"
proof -
  have none: "snd (snd (start_cleanups call (resources m))) = None"
    using assms by (rule start_cleanups_returned)
  have calls: "cleanup_calls (fst (destroyAllNow call m)) = resources m"
    using start_cleanups_all[OF none] by (simp add: destroyAllNow_calls)
  have state: "snd (destroyAllNow call m) = (m\<lparr>resources := [], cleanupTimer := None\<rparr>, Inr ())"
    using none by (simp add: destroyAllNow_unfold)
  show ?thesis using calls state by (rule conjI)
qed

lemma Map_get_filter:
  "Map_ok rs \<Longrightarrow> Map_get (filter P rs) key =
     (case Map_get rs key of Some info \<Rightarrow> if P (key, info) then Some info else None | None \<Rightarrow> None)"
proof (induction rs)
  case Nil
  then show ?case by simp
next
  case (Cons x rs)
  obtain k i where x: "x = (k, i)" by (cases x)
  have ok: "Map_ok rs" and nk: "k \<notin> set (Map_keys rs)"
    using Cons.prems x by (auto simp: Map_ok_def Map_keys_def)
  have "Map_get rs k = None" using nk by (simp add: Map_get_None_iff)
  then show ?case using Cons.IH[OF ok] x by (auto split: option.splits)
qed

lemma count_list_distinct: "distinct xs \<Longrightarrow> x \<in> set xs \<Longrightarrow> count_list xs x = 1"
  by (induction xs) auto

lemma keysToRemove_mem:
  assumes ok: "Map_ok rs" and get: "Map_get rs key = Some info"
  shows "key \<in> set (keysToRemove now interval rs) \<longleftrightarrow> inactive now interval info"
proof
  assume "key \<in> set (keysToRemove now interval rs)"
  then obtain i where i: "(key, i) \<in> set rs" "inactive now interval i"
    by (auto simp: keysToRemove_def)
  have "Map_get rs key = Some i" using ok i(1) by (rule Map_ok_mem_get)
  then show "inactive now interval info" using get i by simp
next
  assume ina: "inactive now interval info"
  have "(key, info) \<in> set rs" using get by (rule Map_get_Some_mem)
  then have "(key, info) \<in> set (filter (\<lambda>(key, info). inactive now interval info) rs)"
    using ina by simp
  then have "fst (key, info) \<in> fst ` set (filter (\<lambda>(key, info). inactive now interval info) rs)"
    by (rule imageI)
  then show "key \<in> set (keysToRemove now interval rs)" by (simp add: keysToRemove_def)
qed

lemma cleanup_calls_settled:
  "cleanup_calls (fst (cleanup_settled key outcome rs n)) = []"
  by (simp add: cleanup_settled_def split: settled.splits)

section \<open>Sequences of calls and instance ids\<close>

lemma getResource_calls: "cleanup_calls (fst (getResource now uuid key rtype factoryFn cleanup m)) = []"
  by (simp add: getResource_def getResource_enter_def getResource_resume_def Let_def
      split: option.splits settled.splits)

lemma Map_set_absent: "Map_get rs key = None \<Longrightarrow> Map_set rs key v = rs @ [(key, v)]"
  by (induction rs) (auto split: if_splits)

lemma Map_set_present_ids:
  "Map_get rs key = Some info \<Longrightarrow> instanceId v = instanceId info \<Longrightarrow>
   instanceIds (Map_set rs key v) = instanceIds rs"
  by (induction rs) (auto simp: instanceIds_def split: if_splits)

lemma getResource_store:
  "resources (fst (snd (getResource now uuid key rtype factoryFn cleanup m))) =
     (case Map_get (resources m) key of
        Some info \<Rightarrow> Map_set (resources m) key (info\<lparr>lastUsed := now\<rparr>)
      | None \<Rightarrow>
          (case factoryFn key of
             Fulfilled r \<Rightarrow> resources m @ [(key, \<lparr>resource = r, lastUsed = now, instanceId = uuid,
                          resourceType = rtype, cacheKey = key, cleanupFn = cleanup\<rparr>)]
           | Rejected e \<Rightarrow> resources m))"
  by (simp add: getResource_def getResource_enter_def getResource_resume_def Let_def
      Map_set_absent split: option.splits settled.splits)

lemma getResource_ok:
  "Map_ok (resources m) \<Longrightarrow> Map_ok (resources (fst (snd (getResource now uuid key rtype factoryFn cleanup m))))"
  by (simp add: getResource_def getResource_enter_def getResource_resume_def Let_def
      Map_ok_set split: option.splits settled.splits)

lemma mem_instanceIds: "(k, info) \<in> set rs \<Longrightarrow> instanceId info \<in> set (instanceIds rs)"
  by (force simp: instanceIds_def)

lemma instanceIds_mem:
  "i \<in> set (instanceIds rs) \<Longrightarrow> \<exists>k info. (k, info) \<in> set rs \<and> instanceId info = i"
  by (auto simp: instanceIds_def)

lemma instanceIds_subset: "set xs \<subseteq> set rs \<Longrightarrow> set (instanceIds xs) \<subseteq> set (instanceIds rs)"
  by (auto simp: instanceIds_def)

lemma getResource_ids:
  "instanceIds (resources (fst (snd (getResource now uuid key rtype factoryFn cleanup m)))) =
     instanceIds (resources m) \<or>
   instanceIds (resources (fst (snd (getResource now uuid key rtype factoryFn cleanup m)))) =
     instanceIds (resources m) @ [uuid]"
proof (cases "Map_get (resources m) key")
  case None
  then show ?thesis
    by (cases "factoryFn key") (simp_all add: getResource_store instanceIds_def)
next
  case (Some info)
  then have "instanceIds (Map_set (resources m) key (info\<lparr>lastUsed := now\<rparr>)) = instanceIds (resources m)"
    by (intro Map_set_present_ids) simp_all
  then show ?thesis using Some by (simp add: getResource_store)
qed

lemma run_op_ok: "Map_ok (resources m) \<Longrightarrow> Map_ok (resources (snd (run_op x m)))"
proof (cases x)
  case (Acquire now uuid key rtype factoryFn cleanup)
  assume "Map_ok (resources m)"
  then show ?thesis using Acquire getResource_ok[of m now uuid key rtype factoryFn cleanup]
    by (simp add: case_prod_beta)
next
  case (Sweep now call)
  assume ok: "Map_ok (resources m)"
  show ?thesis using Sweep ok
    by (simp add: sweep_store[OF ok] Map_ok_def Map_keys_def distinct_map_filter)
next
  case (Shutdown call)
  assume "Map_ok (resources m)"
  then show ?thesis using Shutdown
    by (simp add: case_prod_beta destroyAllNow_store Map_ok_def Map_keys_def)
qed

lemma run_op_ids:
  assumes "Map_ok (resources m)" and "distinct (instanceIds (resources m) @ op_uuids x)"
  shows "distinct (instanceIds (resources (snd (run_op x m)))) \<and>
     set (instanceIds (resources (snd (run_op x m)))) \<subseteq>
       set (instanceIds (resources m)) \<union> set (op_uuids x)"
proof (cases x)
  case (Acquire now uuid key rtype factoryFn cleanup)
  then show ?thesis
    using assms(2) getResource_ids[of now uuid key rtype factoryFn cleanup m]
    by (auto simp: case_prod_beta)
next
  case (Sweep now call)
  have "distinct (instanceIds (resources m))" using assms(2) by simp
  then show ?thesis using Sweep
    by (auto simp: sweep_store[OF assms(1)] instanceIds_def distinct_map_filter)
next
  case (Shutdown call)
  then show ?thesis using assms(2)
    by (simp add: case_prod_beta destroyAllNow_store instanceIds_def)
qed

lemma run_op_cleaned:
  assumes "Map_ok (resources m)" and "distinct (instanceIds (resources m))"
  shows "distinct (cleaned (fst (run_op x m))) \<and>
     set (cleaned (fst (run_op x m))) \<subseteq> set (instanceIds (resources m))"
proof (cases x)
  case (Acquire now uuid key rtype factoryFn cleanup)
  then show ?thesis by (simp add: case_prod_beta getResource_calls cleaned_def instanceIds_def)
next
  case (Sweep now call)
  then show ?thesis using assms(2)
    by (auto simp: sweep_calls[OF assms(1)] cleaned_def instanceIds_def distinct_map_filter)
next
  case (Shutdown call)
  obtain rest where "resources m = cleanup_calls (fst (destroyAllNow call m)) @ rest"
    using destroyAllNow_calls_prefix by blast
  then have "instanceIds (resources m) =
      instanceIds (cleanup_calls (fst (destroyAllNow call m))) @ instanceIds rest"
    by (metis instanceIds_def map_append)
  then show ?thesis using assms(2) Shutdown
    by (auto simp: case_prod_beta cleaned_def)
qed

lemma run_op_cleaned_live:
  "set (cleaned (fst (run_op x m))) \<subseteq> set (instanceIds (resources m))"
proof (cases x)
  case (Acquire now uuid key rtype factoryFn cleanup)
  then show ?thesis by (simp add: case_prod_beta getResource_calls cleaned_def instanceIds_def)
next
  case (Sweep now call)
  have "\<And>e. e \<in> set (cleanup_calls (fst (cleanupInactiveResources call now m))) \<Longrightarrow> e \<in> set (resources m)"
  proof -
    fix e assume e: "e \<in> set (cleanup_calls (fst (cleanupInactiveResources call now m)))"
    obtain k i where ki: "e = (k, i)" by (cases e)
    then have "Map_get (resources m) k = Some i" using e sweep_calls_live by fastforce
    then show "e \<in> set (resources m)" using ki Map_get_Some_mem by fastforce
  qed
  then have "set (cleanup_calls (fst (cleanupInactiveResources call now m))) \<subseteq> set (resources m)"
    by blast
  then show ?thesis using Sweep by (simp add: cleaned_def instanceIds_subset)
next
  case (Shutdown call)
  then show ?thesis
    by (simp add: case_prod_beta cleaned_def instanceIds_subset destroyAllNow_calls_subset)
qed

lemma run_op_ids_subset:
  "set (instanceIds (resources (snd (run_op x m)))) \<subseteq>
       set (instanceIds (resources m)) \<union> set (op_uuids x)"
proof (cases x)
  case (Acquire now uuid key rtype factoryFn cleanup)
  then show ?thesis
    using getResource_ids[of now uuid key rtype factoryFn cleanup m]
    by (auto simp: case_prod_beta)
next
  case (Sweep now call)
  have "set (fst (snd (cleanup_loop call now iv keys rs n))) \<subseteq> set rs" for iv keys rs n
  proof (induction keys arbitrary: rs n)
    case Nil
    then show ?case by simp
  next
    case (Cons k keys)
    have del: "set (Map_delete rs k) \<subseteq> set rs" by (auto simp: Map_delete_filter)
    show ?case
      using Cons[of rs n] Cons[of "Map_delete rs k" "Suc n"] del
      by (auto simp: cleanup_settled_def split: option.splits settled.splits prod.splits if_splits)
  qed
  then have "set (resources (snd (cleanupInactiveResources call now m))) \<subseteq> set (resources m)"
    by (simp add: sweep_unfold)
  then have "set (instanceIds (resources (snd (cleanupInactiveResources call now m))))
      \<subseteq> set (instanceIds (resources m))"
    by (rule instanceIds_subset)
  then show ?thesis using Sweep by auto
next
  case (Shutdown call)
  then show ?thesis by (simp add: case_prod_beta destroyAllNow_store instanceIds_def)
qed

lemma run_op_retires:
  fixes m :: "('r, 'c) ResourceManager"
  assumes "Map_ok (resources m)" and "distinct (instanceIds (resources m))"
    and "\<not> sweep_rejects i x m" and "i \<in> set (cleaned (fst (run_op x m)))"
    and "\<not> shutdown_throws x m"
  shows "i \<notin> set (instanceIds (resources (snd (run_op x m))))"
proof (cases x)
  case (Acquire now uuid key rtype factoryFn cleanup)
  then show ?thesis using assms(4)
    by (simp add: case_prod_beta getResource_calls cleaned_def instanceIds_def)
next
  case (Sweep now call)
  let ?iv = "cleanupIntervalMs m"
  let ?P = "\<lambda>(k, info). \<not> (inactive now ?iv info
                 \<and> awaited_in_try (call (cleanupFn info) (resource info)) = Fulfilled ())"
  have ok: "\<And>k info. (k, info) \<in> set (resources m) \<Longrightarrow> instanceId info = i \<Longrightarrow>
      inactive now ?iv info \<Longrightarrow> awaited_in_try (call (cleanupFn info) (resource info)) = Fulfilled ()"
    using assms(3) Sweep by auto
  have "i \<in> set (instanceIds (filter (\<lambda>(k, info). inactive now ?iv info) (resources m)))"
    using assms(4) Sweep by (simp add: sweep_calls[OF assms(1)] cleaned_def)
  then obtain k info where e: "(k, info) \<in> set (resources m)" "inactive now ?iv info" "instanceId info = i"
    using instanceIds_mem by fastforce
  have inj: "inj_on (\<lambda>(key, info). instanceId info) (set (resources m))"
    using assms(2) by (simp add: instanceIds_def distinct_map)
  have uniq: "\<And>k' info'. (k', info') \<in> set (resources m) \<Longrightarrow> instanceId info' = i \<Longrightarrow> (k', info') = (k, info)"
  proof -
    fix k' info' assume a: "(k', info') \<in> set (resources m)" "instanceId info' = i"
    then have "(\<lambda>(key, info). instanceId info) (k', info') = (\<lambda>(key, info). instanceId info) (k, info)"
      using e(3) by simp
    with inj show "(k', info') = (k, info)" using a(1) e(1) by (rule inj_onD)
  qed
  have "i \<notin> set (instanceIds (filter ?P (resources m)))"
  proof
    assume "i \<in> set (instanceIds (filter ?P (resources m)))"
    then obtain k' info' where a: "(k', info') \<in> set (filter ?P (resources m))" "instanceId info' = i"
      using instanceIds_mem by blast
    have "(k', info') \<in> set (resources m)" using a(1) by simp
    then have "(k', info') = (k, info)" using a(2) by (rule uniq)
    then show False using a(1) e(2) ok[OF e(1) e(3) e(2)] by simp
  qed
  then show ?thesis using Sweep by (simp add: sweep_store[OF assms(1)])
next
  case (Shutdown call)
  then show ?thesis using assms(5)
    by (simp add: case_prod_beta destroyAllNow_store instanceIds_def)
qed

lemma cleaned_append: "cleaned (xs @ ys) = cleaned xs @ cleaned ys"
  by (simp add: cleaned_def cleanup_calls_append instanceIds_def)

lemma run_ops_Cons:
  "run_ops (x # xs) m =
     (fst (run_op x m) @ fst (run_ops xs (snd (run_op x m))), snd (run_ops xs (snd (run_op x m))))"
  by (simp add: case_prod_beta)

lemma never_stored_never_cleaned:
  "i \<notin> set (instanceIds (resources m)) \<Longrightarrow> i \<notin> set (uuids_of ops) \<Longrightarrow>
   i \<notin> set (cleaned (fst (run_ops ops m)))"
proof (induction ops arbitrary: m)
  case Nil
  then show ?case by (simp add: cleaned_def instanceIds_def)
next
  case (Cons x xs)
  have a: "i \<notin> set (cleaned (fst (run_op x m)))"
    using Cons.prems(1) run_op_cleaned_live[of x m] by blast
  have "i \<notin> set (op_uuids x)" and rest: "i \<notin> set (uuids_of xs)"
    using Cons.prems(2) by (auto simp: uuids_of_def)
  then have "i \<notin> set (instanceIds (resources (snd (run_op x m))))"
    using Cons.prems(1) run_op_ids_subset[of x m] by blast
  then have "i \<notin> set (cleaned (fst (run_ops xs (snd (run_op x m)))))"
    using rest by (rule Cons.IH)
  then show ?case using a by (simp add: run_ops_Cons cleaned_append del: run_ops.simps)
qed

lemma cleaned_at_most_once:
  "Map_ok (resources m) \<Longrightarrow> distinct (instanceIds (resources m) @ uuids_of ops) \<Longrightarrow>
   \<not> rejected_in_run i ops m \<Longrightarrow> \<not> thrown_in_run ops m \<Longrightarrow>
   count_list (cleaned (fst (run_ops ops m))) i \<le> 1"
proof (induction ops arbitrary: m)
  case Nil
  then show ?case by (simp add: cleaned_def instanceIds_def)
next
  case (Cons x xs)
  let ?m = "snd (run_op x m)"
  have d0: "distinct (instanceIds (resources m))" and d1: "distinct (instanceIds (resources m) @ op_uuids x)"
    and dxs: "distinct (uuids_of xs)"
    and disj: "set (uuids_of xs) \<inter> (set (instanceIds (resources m)) \<union> set (op_uuids x)) = {}"
    using Cons.prems(2) by (auto simp: uuids_of_def)
  have ok: "Map_ok (resources ?m)" using Cons.prems(1) by (rule run_op_ok)
  have ids: "distinct (instanceIds (resources ?m))"
    "set (instanceIds (resources ?m)) \<subseteq> set (instanceIds (resources m)) \<union> set (op_uuids x)"
    using run_op_ids[OF Cons.prems(1) d1] by auto
  have d': "distinct (instanceIds (resources ?m) @ uuids_of xs)"
    using ids dxs disj by auto
  have sw: "\<not> rejected_in_run i xs ?m" and swx: "\<not> sweep_rejects i x m"
    using Cons.prems(3) by auto
  have th: "\<not> thrown_in_run xs ?m" and thx: "\<not> shutdown_throws x m"
    using Cons.prems(4) by auto
  have IH: "count_list (cleaned (fst (run_ops xs ?m))) i \<le> 1"
    using ok d' sw th by (rule Cons.IH)
  have cl: "distinct (cleaned (fst (run_op x m)))"
    "set (cleaned (fst (run_op x m))) \<subseteq> set (instanceIds (resources m))"
    using run_op_cleaned[OF Cons.prems(1) d0, of x] by auto
  show ?case
  proof (cases "i \<in> set (cleaned (fst (run_op x m)))")
    case True
    then have one: "count_list (cleaned (fst (run_op x m))) i = 1"
      using cl(1) by (intro count_list_distinct)
    have "i \<notin> set (instanceIds (resources ?m))"
      using Cons.prems(1) d0 swx True thx by (rule run_op_retires)
    moreover have "i \<notin> set (uuids_of xs)" using True cl(2) disj by blast
    ultimately have "i \<notin> set (cleaned (fst (run_ops xs ?m)))" by (rule never_stored_never_cleaned)
    then have "count_list (cleaned (fst (run_ops xs ?m))) i = 0" by simp
    then show ?thesis using one by (simp add: run_ops_Cons cleaned_append del: run_ops.simps)
  next
    case False
    then have "count_list (cleaned (fst (run_op x m))) i = 0" by simp
    then show ?thesis using IH by (simp add: run_ops_Cons cleaned_append del: run_ops.simps)
  qed
qed

lemma Map_set_twice: "Map_set (Map_set rs k v) k w = Map_set rs k w"
  by (induction rs) auto

lemma set_Map_set: "set (Map_set rs k v) \<subseteq> insert (k, v) (set rs)"
  by (induction rs) (auto split: if_splits)

subsection \<open>The managers of the examples\<close>

lemma manager_100_eq:
  "manager_100 = \<lparr>resources = [], cleanupIntervalMs = 100, cleanupTimer = Some Timeout\<rparr>"
  by (simp add: manager_100_def new_ResourceManager_def startCleanupTimer_def)

lemma manager_A_eq:
  "manager_A =
     \<lparr>resources = [(''A'', info_A)], cleanupIntervalMs = 100, cleanupTimer = Some Timeout\<rparr>"
  by (simp add: manager_A_def manager_100_eq acquire_A_def info_A_def factory_returning_def
      getResource_def getResource_enter_def getResource_resume_def)

lemma manager_AB_eq:
  "manager_AB =
     \<lparr>resources = [(''A'', info_A), (''B'', info_B)], cleanupIntervalMs = 100,
       cleanupTimer = Some Timeout\<rparr>"
  by (simp add: manager_AB_def manager_100_eq acquire_A_def acquire_B_def info_A_def info_B_def
      factory_returning_def getResource_def getResource_enter_def getResource_resume_def)

lemmas sweep_defs =
  cleanupInactiveResources_def keysToRemove_def inactive_def cleanup_settled_def

lemmas destroy_defs =
  destroyAllNow_def destroyAllNow_enter_def destroyAllNow_resume_def catch_logged_def
  allSettled_def stopCleanupTimer_def

lemmas acquire_defs =
  getResource_def getResource_enter_def getResource_resume_def

section \<open>The claims\<close>

text \<open>
  Claim C1, as the code has it. When the sweep at time \<open>now\<close> finds the entry \<open>info\<close>
  under \<open>key\<close> inactive, it calls the cleanup function of the entry. The entry is deleted
  when the promise of that call is fulfilled; when the call throws or its promise is
  rejected the entry stays in the map as it was (line 137 deletes inside the \<open>try\<close>,
  the deletion in the \<open>catch\<close> block is commented out). Either way the sweep goes on:
  the cleanup function of every key of the scan is called.
\<close>

theorem sweep_keeps_entry_of_failed_cleanup:
  assumes "Map_ok (resources m)"
    and "Map_get (resources m) key = Some info"
    and "inactive now (cleanupIntervalMs m) info"
  shows "(case cleanupInactiveResources call now m of
            (effects, m') \<Rightarrow>
              (key, info) \<in> set (cleanup_calls effects) \<and>
              Map_get (resources m') key =
                (case awaited_in_try (call (cleanupFn info) (resource info)) of
                   Fulfilled u \<Rightarrow> None
                 | Rejected error \<Rightarrow> Some info) \<and>
              map fst (cleanup_calls effects) =
                keysToRemove now (cleanupIntervalMs m) (resources m))"
proof -
  have mem: "(key, info) \<in> set (resources m)" using assms(2) by (rule Map_get_Some_mem)
  have calls: "cleanup_calls (fst (cleanupInactiveResources call now m)) =
      filter (\<lambda>(k, info). inactive now (cleanupIntervalMs m) info) (resources m)"
    using assms(1) by (rule sweep_calls)
  have store: "Map_get (resources (snd (cleanupInactiveResources call now m))) key =
      (case awaited_in_try (call (cleanupFn info) (resource info)) of
         Fulfilled u \<Rightarrow> None | Rejected error \<Rightarrow> Some info)"
    using assms by (simp add: sweep_store Map_get_filter split: settled.splits)
  show ?thesis
    using calls store mem assms(3) by (simp add: keysToRemove_def case_prod_beta)
qed

text \<open>The claim as it is written fails here.\<close>

theorem failed_cleanup_removal_counterexample:
  "cleanup_calls (fst (run_ops
      [acquire_A, Sweep 250 (cleanup_fails_for ''closeA'' (Error ''close failed''))] manager_100))
     = [(''A'', info_A)] \<and>
   Map_get (resources (snd (run_ops
      [acquire_A, Sweep 250 (cleanup_fails_for ''closeA'' (Error ''close failed''))] manager_100)))
      ''A'' = Some info_A"
  by (simp add: manager_100_eq acquire_A_def info_A_def factory_returning_def acquire_defs
      sweep_defs cleanup_fails_for_def)

theorem sweep_keeps_entry_of_failed_cleanup_witness:
  "Map_ok (resources manager_A) \<and>
   Map_get (resources manager_A) ''A'' = Some info_A \<and>
   inactive 250 (cleanupIntervalMs manager_A) info_A \<and>
   (case cleanupInactiveResources (cleanup_fails_for ''closeA'' (Error ''close failed'')) 250
           manager_A of
      (effects, m') \<Rightarrow>
        (''A'', info_A) \<in> set (cleanup_calls effects) \<and>
        Map_get (resources m') ''A'' = Some info_A \<and>
        map fst (cleanup_calls effects) = [''A''])"
  using sweep_keeps_entry_of_failed_cleanup [where m = manager_A and key = "''A''"
      and info = info_A and now = 250
      and call = "cleanup_fails_for ''closeA'' (Error ''close failed'')"]
  by (simp add: manager_A_eq info_A_def sweep_defs cleanup_fails_for_def Map_ok_def Map_keys_def)

text \<open>
  Claim C2, as the code has it. Over any sequence of \<open>getResource\<close>, sweep and
  \<open>destroyAllNow\<close> calls, each running to its end before the next, from a manager
  whose entries have different instance ids and with \<open>uuidv4()\<close> returning ids not
  seen before: the cleanup function of the entry with id \<open>i\<close> is called at most once,
  unless a sweep calls it and the call fails (then the entry stays in the map and later
  sweeps and \<open>destroyAllNow\<close> call it again). This is stated for the sequences in which
  no \<open>destroyAllNow\<close> ends by throwing. In every sequence, once the entry is no longer
  in the map, its cleanup function is never called again.
\<close>

theorem cleanup_once_unless_sweep_rejected:
  assumes "Map_ok (resources m)"
    and "distinct (instanceIds (resources m) @ uuids_of ops)"
  shows "(\<not> rejected_in_run i ops m \<and> \<not> thrown_in_run ops m \<longrightarrow>
            count_list (cleaned (fst (run_ops ops m))) i \<le> 1) \<and>
         (\<forall>before after.
            ops = before @ after \<longrightarrow>
            i \<in> set (instanceIds (resources m) @ uuids_of before) \<longrightarrow>
            i \<notin> set (instanceIds (resources (snd (run_ops before m)))) \<longrightarrow>
            i \<notin> set (cleaned (fst (run_ops after (snd (run_ops before m))))))"
proof (intro conjI allI impI)
  assume "\<not> rejected_in_run i ops m \<and> \<not> thrown_in_run ops m"
  then have "\<not> rejected_in_run i ops m" and "\<not> thrown_in_run ops m" by simp_all
  with assms show "count_list (cleaned (fst (run_ops ops m))) i \<le> 1"
    by (rule cleaned_at_most_once)
next
  fix before after
  assume split: "ops = before @ after"
    and was: "i \<in> set (instanceIds (resources m) @ uuids_of before)"
    and gone: "i \<notin> set (instanceIds (resources (snd (run_ops before m))))"
  have "distinct (instanceIds (resources m) @ uuids_of before @ uuids_of after)"
    using assms(2) split by (simp add: uuids_of_def)
  then have "i \<notin> set (uuids_of after)" using was by auto
  with gone show "i \<notin> set (cleaned (fst (run_ops after (snd (run_ops before m)))))"
    by (rule never_stored_never_cleaned)
qed

text \<open>The claim as it is written fails here.\<close>

theorem cleanup_once_counterexample:
  "cleaned (fst (run_ops
      [acquire_A,
       Sweep 250 (cleanup_fails_for ''closeA'' (Error ''close failed'')),
       Sweep 500 (cleanup_fails_for ''closeA'' (Error ''close failed''))] manager_100))
     = [''id-1'', ''id-1''] \<and>
   count_list (cleaned (fst (run_ops
      [acquire_A,
       Sweep 250 (cleanup_fails_for ''closeA'' (Error ''close failed'')),
       Sweep 500 (cleanup_fails_for ''closeA'' (Error ''close failed''))] manager_100)))
     ''id-1'' = 2"
  by (simp add: manager_100_eq acquire_A_def factory_returning_def acquire_defs sweep_defs
      cleanup_fails_for_def cleaned_def instanceIds_def)

theorem cleanup_once_unless_sweep_rejected_witness:
  "Map_ok (resources manager_100) \<and>
   distinct (instanceIds (resources manager_100)
      @ uuids_of [acquire_A, Sweep 250 cleanups_succeed, acquire_B, Shutdown cleanups_succeed]) \<and>
   \<not> rejected_in_run ''id-1''
      [acquire_A, Sweep 250 cleanups_succeed, acquire_B, Shutdown cleanups_succeed] manager_100 \<and>
   \<not> thrown_in_run
      [acquire_A, Sweep 250 cleanups_succeed, acquire_B, Shutdown cleanups_succeed] manager_100 \<and>
   cleaned (fst (run_ops
      [acquire_A, Sweep 250 cleanups_succeed, acquire_B, Shutdown cleanups_succeed] manager_100))
     = [''id-1'', ''id-2''] \<and>
   count_list (cleaned (fst (run_ops
      [acquire_A, Sweep 250 cleanups_succeed, acquire_B, Shutdown cleanups_succeed] manager_100)))
     ''id-1'' \<le> 1 \<and>
   ''id-1'' \<in> set (instanceIds (resources manager_100)
      @ uuids_of [acquire_A, Sweep 250 cleanups_succeed]) \<and>
   ''id-1'' \<notin> set (instanceIds (resources (snd (run_ops
      [acquire_A, Sweep 250 cleanups_succeed] manager_100)))) \<and>
   ''id-1'' \<notin> set (cleaned (fst (run_ops [acquire_B, Shutdown cleanups_succeed]
      (snd (run_ops [acquire_A, Sweep 250 cleanups_succeed] manager_100)))))"
  using cleanup_once_unless_sweep_rejected [where m = manager_100 and i = "''id-1''"
      and ops = "[acquire_A, Sweep 250 cleanups_succeed, acquire_B, Shutdown cleanups_succeed]"]
  by (simp add: manager_100_eq acquire_A_def acquire_B_def factory_returning_def acquire_defs
      sweep_defs destroy_defs cleanups_succeed_def cleaned_def instanceIds_def uuids_of_def
      Map_ok_def Map_keys_def)

text \<open>
  Claim C3. When no entry is stored under \<open>key\<close> and the factory fails, \<open>getResource\<close>
  leaves the manager as it was (no entry under the key), and raises an \<open>Error\<close> whose
  message names the resource type and the cause. The next call for the key calls its
  factory again, and succeeds or fails with that factory; no failure is cached.
\<close>

theorem getResource_factory_failure:
  assumes "Map_get (resources m) key = None" and "factoryFn key = Rejected error"
  shows "(case getResource now uuid key rtype factoryFn cleanup m of
            (effects, m', result) \<Rightarrow>
              m' = m \<and>
              result = Inl (Error (''Resource factory function failed for type '' @ rtype
                                     @ '': '' @ error_text error)) \<and>
              (case getResource now' uuid' key rtype' factoryFn' cleanup' m' of
                 (effects', m'', result') \<Rightarrow>
                   factory_calls effects' = [key] \<and>
                   (case factoryFn' key of
                      Fulfilled r \<Rightarrow>
                        result' = Inr r \<and>
                        Map_get (resources m'') key =
                          Some \<lparr>resource = r, lastUsed = now', instanceId = uuid',
                                resourceType = rtype', cacheKey = key, cleanupFn = cleanup'\<rparr>
                    | Rejected error' \<Rightarrow>
                        m'' = m \<and>
                        result' = Inl (Error (''Resource factory function failed for type ''
                                     @ rtype' @ '': '' @ error_text error')))))"
  using assms
  by (simp add: getResource_def getResource_enter_def getResource_resume_def Map_get_set
      split: settled.split)

theorem getResource_factory_failure_witness:
  "Map_get (resources manager_A) ''B'' = None \<and>
   factory_failing (Error ''network down'') ''B'' = (Rejected (Error ''network down'') :: string settled) \<and>
   (case getResource 5 ''id-2'' ''B'' ''avantage_client''
           (factory_failing (Error ''network down'')) ''closeB'' manager_A of
      (effects, m', result) \<Rightarrow>
        m' = manager_A \<and>
        result = Inl (Error
          ''Resource factory function failed for type avantage_client: network down'') \<and>
        (case getResource 10 ''id-2'' ''B'' ''avantage_client'' (factory_returning ''r2'')
                ''closeB'' m' of
           (effects', m'', result') \<Rightarrow>
             factory_calls effects' = [''B''] \<and> result' = Inr ''r2'' \<and>
             Map_get (resources m'') ''B'' = Some info_B))"
  using getResource_factory_failure [where m = manager_A and key = "''B''"
      and factoryFn = "factory_failing (Error ''network down'')"
      and error = "Error ''network down''"
      and now = 5 and uuid = "''id-2''" and rtype = "''avantage_client''"
      and cleanup = "''closeB''" and now' = 10 and uuid' = "''id-2''"
      and rtype' = "''avantage_client''" and factoryFn' = "factory_returning ''r2''"
      and cleanup' = "''closeB''"]
  by (simp add: manager_A_eq info_A_def info_B_def acquire_defs factory_failing_def
      factory_returning_def)

text \<open>
  Claim C4. When an entry is stored under \<open>key\<close>, \<open>getResource\<close> returns the resource of
  the entry, does not call the factory, and sets \<open>lastUsed\<close> of the entry to the current
  time. A resource type other than the stored one costs a warning of the logger and
  nothing else.
\<close>

theorem getResource_reuses_live_entry:
  assumes "Map_get (resources m) key = Some info"
  shows "(case getResource now uuid key rtype factoryFn cleanup m of
            (effects, m', result) \<Rightarrow>
              result = Inr (resource info) \<and>
              factory_calls effects = [] \<and>
              Map_get (resources m') key = Some (info\<lparr>lastUsed := now\<rparr>) \<and>
              effects = Logged Log_debug #
                (if resourceType info \<noteq> rtype then [Logged Log_warn] else []))"
  using assms
  by (simp add: getResource_def getResource_enter_def Map_get_set)

theorem getResource_reuses_live_entry_witness:
  "Map_get (resources manager_A) ''A'' = Some info_A \<and>
   getResource 7 ''id-9'' ''A'' ''other_type'' (factory_returning ''r9'') ''closeOther'' manager_A =
     ([Logged Log_debug, Logged Log_warn],
      manager_A\<lparr>resources := [(''A'', info_A\<lparr>lastUsed := 7\<rparr>)]\<rparr>,
      Inr ''r1'')"
  using getResource_reuses_live_entry [where m = manager_A and key = "''A''"
      and info = info_A and now = 7 and uuid = "''id-9''" and rtype = "''other_type''"
      and factoryFn = "factory_returning ''r9''" and cleanup = "''closeOther''"]
  by (simp add: manager_A_eq info_A_def acquire_defs)

text \<open>
  Claim C5, as the code has it. For an entry \<open>info\<close> stored under \<open>key\<close>: the scan of
  the sweep at time \<open>now\<close> selects the key exactly when
  \<open>now - lastUsed info > cleanupIntervalMs\<close>. In that case the cleanup function of the
  entry is called exactly once, and the entry is absent afterwards when the promise of
  the call is fulfilled, and still stored, unchanged, when the call throws or the promise
  is rejected. Otherwise the
  cleanup function is not called and the entry stays as it was.
\<close>

theorem sweep_evicts_inactive_entries:
  assumes "Map_ok (resources m)"
    and "Map_get (resources m) key = Some info"
  shows "(case cleanupInactiveResources call now m of
            (effects, m') \<Rightarrow>
              (key \<in> set (keysToRemove now (cleanupIntervalMs m) (resources m))
                 \<longleftrightarrow> now - lastUsed info > cleanupIntervalMs m) \<and>
              (if now - lastUsed info > cleanupIntervalMs m
               then count_list (cleanup_calls effects) (key, info) = 1 \<and>
                    count_list (map fst (cleanup_calls effects)) key = 1 \<and>
                    Map_get (resources m') key =
                      (case awaited_in_try (call (cleanupFn info) (resource info)) of
                         Fulfilled u \<Rightarrow> None
                       | Rejected error \<Rightarrow> Some info)
               else key \<notin> fst ` set (cleanup_calls effects) \<and>
                    Map_get (resources m') key = Some info))"
proof -
  let ?iv = "cleanupIntervalMs m"
  have mem: "(key, info) \<in> set (resources m)" using assms(2) by (rule Map_get_Some_mem)
  have only: "\<And>i. (key, i) \<in> set (resources m) \<Longrightarrow> i = info"
    using Map_ok_mem_get[OF assms(1)] assms(2) by fastforce
  have calls: "cleanup_calls (fst (cleanupInactiveResources call now m)) =
      filter (\<lambda>(k, info). inactive now ?iv info) (resources m)"
    using assms(1) by (rule sweep_calls)
  have dk: "distinct (map fst (filter (\<lambda>(k, info). inactive now ?iv info) (resources m)))"
    using assms(1) by (simp add: Map_ok_def Map_keys_def distinct_map_filter)
  then have d: "distinct (filter (\<lambda>(k, info). inactive now ?iv info) (resources m))"
    by (simp add: distinct_map)
  have store: "Map_get (resources (snd (cleanupInactiveResources call now m))) key =
      (if inactive now ?iv info \<and> awaited_in_try (call (cleanupFn info) (resource info)) = Fulfilled ()
       then None else Some info)"
    using assms by (simp add: sweep_store Map_get_filter)
  have scan: "key \<in> set (keysToRemove now ?iv (resources m)) \<longleftrightarrow> now - lastUsed info > ?iv"
    using keysToRemove_mem[OF assms, of now ?iv] by (simp add: inactive_def)
  show ?thesis
  proof (cases "now - lastUsed info > ?iv")
    case True
    then have ina: "inactive now ?iv info" by (simp add: inactive_def)
    then have in_calls: "(key, info) \<in> set (filter (\<lambda>(k, info). inactive now ?iv info) (resources m))"
      using mem by simp
    have c1: "count_list (filter (\<lambda>(k, info). inactive now ?iv info) (resources m)) (key, info) = 1"
      using d in_calls by (rule count_list_distinct)
    have "key \<in> set (map fst (filter (\<lambda>(k, info). inactive now ?iv info) (resources m)))"
      using in_calls by force
    then have c2: "count_list (map fst (filter (\<lambda>(k, info). inactive now ?iv info) (resources m))) key = 1"
      using dk by (intro count_list_distinct)
    show ?thesis
      using True scan calls store ina c1 c2
      by (cases "awaited_in_try (call (cleanupFn info) (resource info))") (simp_all add: case_prod_beta)
  next
    case False
    then have ina: "\<not> inactive now ?iv info" by (simp add: inactive_def)
    have "key \<notin> fst ` set (filter (\<lambda>(k, info). inactive now ?iv info) (resources m))"
      using only ina by force
    then show ?thesis
      using False scan calls store ina by (simp add: case_prod_beta)
  qed
qed

text \<open>The claim as it is written fails here.\<close>

theorem inactive_entry_absent_counterexample:
  "250 - lastUsed info_A > cleanupIntervalMs manager_AB \<and>
   count_list (map fst (cleanup_calls (fst (cleanupInactiveResources
      (cleanup_fails_for ''closeA'' (Error ''close failed'')) 250 manager_AB)))) ''A'' = 1 \<and>
   Map_get (resources (snd (cleanupInactiveResources
      (cleanup_fails_for ''closeA'' (Error ''close failed'')) 250 manager_AB))) ''A''
     = Some info_A"
  by (simp add: manager_AB_eq info_A_def info_B_def sweep_defs cleanup_fails_for_def)

theorem sweep_evicts_inactive_entries_witness:
  "Map_ok (resources manager_AB) \<and>
   Map_get (resources manager_AB) ''B'' = Some info_B \<and>
   (case cleanupInactiveResources (cleanup_fails_for ''closeA'' (Error ''close failed'')) 250
           manager_AB of
      (effects, m') \<Rightarrow>
        ''B'' \<in> set (keysToRemove 250 (cleanupIntervalMs manager_AB) (resources manager_AB)) \<and>
        250 - lastUsed info_B > cleanupIntervalMs manager_AB \<and>
        count_list (cleanup_calls effects) (''B'', info_B) = 1 \<and>
        count_list (map fst (cleanup_calls effects)) ''B'' = 1 \<and>
        Map_get (resources m') ''B'' = None)"
  using sweep_evicts_inactive_entries [where m = manager_AB and key = "''B''"
      and info = info_B and now = 250
      and call = "cleanup_fails_for ''closeA'' (Error ''close failed'')"]
  by (simp add: manager_AB_eq info_A_def info_B_def sweep_defs cleanup_fails_for_def
      Map_ok_def Map_keys_def)

text \<open>
  Claim C6. A sweep that started at time \<open>now\<close> is waiting for the cleanup of the key
  \<open>awaited\<close>, with the keys \<open>keys\<close> of its scan still to be visited. Meanwhile
  \<open>getResource\<close> is called at time \<open>t\<close> for another key, which has an entry. Whatever
  the awaited cleanup does and whatever keys are left (the key of the call among them or
  not), when the sweep goes on, the second check of line 131 finds the entry used at
  \<open>t\<close>: its cleanup function is not called and it stays in the map. The clock does
  not run backwards (\<open>now \<le> t\<close>) and the interval is not negative.
\<close>

theorem recheck_protects_reacquired_entry:
  assumes "0 \<le> cleanupIntervalMs m"
    and "now \<le> t"
    and "Map_get (resources m) key = Some info"
    and "awaited \<noteq> key"
  shows "(case getResource t uuid key rtype factoryFn cleanup m of
            (effects, m', result) \<Rightarrow>
              (case cleanup_loop_resume call now (cleanupIntervalMs m') awaited outcome keys
                      (resources m') cleanedCount of
                 (effects', rs', cleanedCount') \<Rightarrow>
                   key \<notin> fst ` set (cleanup_calls effects') \<and>
                   Map_get rs' key = Some (info\<lparr>lastUsed := t\<rparr>)))"
proof -
  let ?rs = "Map_set (resources m) key (info\<lparr>lastUsed := t\<rparr>)"
  let ?iv = "cleanupIntervalMs m"
  have acq: "getResource t uuid key rtype factoryFn cleanup m =
      (Logged Log_debug # (if resourceType info \<noteq> rtype then [Logged Log_warn] else []),
       m\<lparr>resources := ?rs\<rparr>, Inr (resource info))"
    using assms(3) by (simp add: getResource_def getResource_enter_def)
  obtain s rs1 n1 where settled: "cleanup_settled awaited outcome ?rs cleanedCount = (s, rs1, n1)"
    by (cases "cleanup_settled awaited outcome ?rs cleanedCount") auto
  have s: "cleanup_calls s = []" using cleanup_calls_settled[of awaited outcome ?rs cleanedCount] settled by simp
  have "rs1 = ?rs \<or> rs1 = Map_delete ?rs awaited"
    using settled by (auto simp: cleanup_settled_def split: settled.splits)
  then have live: "Map_get rs1 key = Some (info\<lparr>lastUsed := t\<rparr>)"
    using assms(4) by (auto simp: Map_get_set Map_get_delete)
  have fresh: "\<not> inactive now ?iv (info\<lparr>lastUsed := t\<rparr>)"
    using assms(1,2) by (simp add: inactive_def)
  have rest: "Map_get (fst (snd (cleanup_loop call now ?iv keys rs1 n1))) key = Some (info\<lparr>lastUsed := t\<rparr>) \<and>
      key \<notin> fst ` set (cleanup_calls (fst (cleanup_loop call now ?iv keys rs1 n1)))"
    using live fresh by (rule cleanup_loop_active)
  show ?thesis
    using acq settled s rest
    by (simp add: cleanup_loop_resume_def cleanup_calls_append case_prod_beta)
qed

theorem recheck_protects_reacquired_entry_witness:
  "0 \<le> cleanupIntervalMs manager_AB \<and> (250::int) \<le> 251 \<and>
   Map_get (resources manager_AB) ''B'' = Some info_B \<and> ''A'' \<noteq> ''B'' \<and>
   keysToRemove 250 (cleanupIntervalMs manager_AB) (resources manager_AB) = [''A'', ''B''] \<and>
   (case getResource 251 ''id-3'' ''B'' ''avantage_client'' (factory_returning ''r3'') ''closeB''
           manager_AB of
      (effects, m', result) \<Rightarrow>
        (case cleanup_loop_resume cleanups_succeed 250 (cleanupIntervalMs m') ''A''
                (Fulfilled ()) [''B''] (resources m') 0 of
           (effects', rs', cleanedCount') \<Rightarrow>
             cleanup_calls effects' = [] \<and>
             rs' = [(''B'', info_B\<lparr>lastUsed := 251\<rparr>)]))"
  using recheck_protects_reacquired_entry [where m = manager_AB and key = "''B''"
      and info = info_B and now = 250 and t = 251 and awaited = "''A''"
      and uuid = "''id-3''" and rtype = "''avantage_client''"
      and factoryFn = "factory_returning ''r3''" and cleanup = "''closeB''"
      and call = cleanups_succeed and outcome = "Fulfilled ()" and keys = "[''B'']"
      and cleanedCount = 0]
  by (simp add: manager_AB_eq info_A_def info_B_def acquire_defs keysToRemove_def inactive_def
      cleanup_settled_def cleanup_loop_resume_def cleanups_succeed_def)

text \<open>
  Claim C7 fails on the code. One of the stored cleanup functions throws before it returns
  its promise: \<open>destroyAllNow\<close> has stopped the timer and called the cleanup function of
  the entries up to that one; the throw leaves the loop of line 168, so the cleanup
  functions of the later entries are not called, the map is not cleared, and the call ends
  with the thrown error. The sweep, which calls inside a \<open>try\<close>, takes the same throw
  as a failed cleanup and goes on to the next key.
\<close>

theorem destroyAllNow_throwing_cleanup:
  "destroyAllNow (cleanup_throws_for ''closeA'' (Error ''close failed'')) manager_AB =
     ([Logged Log_warn, Logged Log_info, Logged Log_info, Cleanup_called ''A'' info_A],
      \<lparr>resources = [(''A'', info_A), (''B'', info_B)], cleanupIntervalMs = 100,
        cleanupTimer = None\<rparr>,
      Inl (Error ''close failed'')) \<and>
   cleanupInactiveResources (cleanup_throws_for ''closeA'' (Error ''close failed'')) 250
       manager_AB =
     ([Logged Log_debug, Logged Log_info,
       Logged Log_info, Cleanup_called ''A'' info_A, Logged Log_error,
       Logged Log_info, Cleanup_called ''B'' info_B, Logged Log_info,
       Logged Log_info],
      \<lparr>resources = [(''A'', info_A)], cleanupIntervalMs = 100,
        cleanupTimer = Some Timeout\<rparr>)"
  by (simp add: manager_AB_eq info_A_def info_B_def destroy_defs sweep_defs
      cleanup_throws_for_def)

text \<open>
  Claim C8, as the code has it. On an empty map \<open>destroyAllNow\<close> calls no cleanup
  function, leaves the map empty and returns without an error; when the timer is stopped
  as well it changes nothing. With the timer already stopped, \<open>stopCleanupTimer\<close>
  does nothing. The timer is stopped after every \<open>destroyAllNow\<close>. After a
  \<open>destroyAllNow\<close> that has returned, the map is empty, and a second one right after
  it calls no cleanup function, changes nothing and returns.
\<close>

theorem destroyAllNow_idempotent:
  "(case destroyAllNow call m of
      (effects, m', result) \<Rightarrow>
        (resources m = [] \<longrightarrow>
           cleanup_calls effects = [] \<and> resources m' = [] \<and> result = Inr ()) \<and>
        (resources m = [] \<and> cleanupTimer m = None \<longrightarrow> m' = m) \<and>
        (cleanupTimer m = None \<longrightarrow> stopCleanupTimer m = ([], m)) \<and>
        cleanupTimer m' = None \<and>
        (result = Inr () \<longrightarrow>
           resources m' = [] \<and>
           (case destroyAllNow call' m' of
              (effects', m'', result') \<Rightarrow>
                cleanup_calls effects' = [] \<and> m'' = m' \<and> result' = Inr ())))"
proof -
  let ?m = "m\<lparr>resources := [], cleanupTimer := None\<rparr>"
  have same: "resources m = [] \<and> cleanupTimer m = None \<longrightarrow> ?m = m"
    by (cases m) simp
  have empty: "resources m = [] \<longrightarrow>
      cleanup_calls (fst (destroyAllNow call m)) = [] \<and>
      fst (snd (destroyAllNow call m)) = ?m \<and> snd (snd (destroyAllNow call m)) = Inr ()"
    by (simp add: destroyAllNow_empty cleanup_calls_append cleanup_calls_stopped)
  have timer: "cleanupTimer (fst (snd (destroyAllNow call m))) = None"
    by (cases "snd (snd (start_cleanups call (resources m)))")
       (simp_all add: destroyAllNow_unfold)
  have again: "destroyAllNow call' ?m = ([Logged Log_warn, Logged Log_warn], ?m, Inr ())"
    by (simp add: destroyAllNow_empty stopCleanupTimer_def)
  have returned: "snd (snd (destroyAllNow call m)) = Inr () \<longrightarrow>
      fst (snd (destroyAllNow call m)) = ?m"
    using destroyAllNow_returned(2) by blast
  have stop: "cleanupTimer m = None \<longrightarrow> stopCleanupTimer m = ([], m)"
    by (simp add: stopCleanupTimer_def)
  have first: "resources m = [] \<longrightarrow>
      cleanup_calls (fst (destroyAllNow call m)) = [] \<and>
      resources (fst (snd (destroyAllNow call m))) = [] \<and>
      snd (snd (destroyAllNow call m)) = Inr ()"
    using empty by simp
  have noop: "resources m = [] \<and> cleanupTimer m = None \<longrightarrow> fst (snd (destroyAllNow call m)) = m"
    using empty same by simp
  have second: "snd (snd (destroyAllNow call m)) = Inr () \<longrightarrow>
      resources (fst (snd (destroyAllNow call m))) = [] \<and>
      cleanup_calls (fst (destroyAllNow call' (fst (snd (destroyAllNow call m))))) = [] \<and>
      fst (snd (destroyAllNow call' (fst (snd (destroyAllNow call m))))) =
        fst (snd (destroyAllNow call m)) \<and>
      snd (snd (destroyAllNow call' (fst (snd (destroyAllNow call m))))) = Inr ()"
    using returned again by auto
  show ?thesis
    unfolding case_prod_beta
    using first noop stop timer second by blast
qed

text \<open>The claim as it is written fails here.\<close>

theorem destroyAllNow_timer_stopped_counterexample:
  "cleanupTimer (snd (stopCleanupTimer manager_A)) = None \<and>
   cleanup_calls (fst (destroyAllNow cleanups_succeed (snd (stopCleanupTimer manager_A))))
     = [(''A'', info_A)]"
  by (simp add: manager_A_eq info_A_def destroy_defs cleanups_succeed_def)

theorem destroyAllNow_idempotent_witness:
  "resources (snd (stopCleanupTimer manager_100)) = [] \<and>
   cleanupTimer (snd (stopCleanupTimer manager_100)) = None \<and>
   destroyAllNow cleanups_succeed (snd (stopCleanupTimer manager_100)) =
     ([Logged Log_warn, Logged Log_warn], snd (stopCleanupTimer manager_100), Inr ()) \<and>
   stopCleanupTimer (snd (stopCleanupTimer manager_100)) =
     ([], snd (stopCleanupTimer manager_100)) \<and>
   snd (snd (destroyAllNow cleanups_succeed manager_AB)) = Inr () \<and>
   destroyAllNow cleanups_succeed (fst (snd (destroyAllNow cleanups_succeed manager_AB))) =
     ([Logged Log_warn, Logged Log_warn],
      fst (snd (destroyAllNow cleanups_succeed manager_AB)), Inr ())"
  using destroyAllNow_idempotent [where m = "snd (stopCleanupTimer manager_100)"
      and call = cleanups_succeed and call' = cleanups_succeed]
  by (simp add: manager_100_eq manager_AB_eq info_A_def info_B_def destroy_defs
      cleanups_succeed_def)

text \<open>
  Claim C9. Two first calls of \<open>getResource\<close>, for keys \<open>ka\<close> and \<open>kb\<close> without
  an entry, both reach their \<open>await\<close> before either factory has answered. Neither
  waits for the other: each calls its factory at once and leaves the manager untouched,
  and whichever is taken up first returns its resource and stores its entry. With
  different keys both entries are stored. With the same key both factories have been
  called, both callers get their resource, and the entry written last is the one in the
  map; when the resource written first is a different object and no older entry holds it,
  no entry holds it any more, and neither \<open>destroyAllNow\<close> nor a sweep calls a
  cleanup function on it.
\<close>

theorem concurrent_first_acquires:
  assumes "Map_get (resources m) ka = None" and "Map_get (resources m) kb = None"
    and "fa ka = Fulfilled ra" and "fb kb = Fulfilled rb"
  shows
   "(case getResource_enter ta ka tya fa m of (e1, m1, w1) \<Rightarrow>
     (case getResource_enter tb kb tyb fb m1 of (e2, m2, w2) \<Rightarrow>
        w1 = Awaiting (Fulfilled ra) \<and> w2 = Awaiting (Fulfilled rb) \<and> m2 = m \<and>
        factory_calls (e1 @ e2) = [ka, kb] \<and>
        (case getResource_resume tc ua ka tya ca (Fulfilled ra) m2 of (e3, m3, res1) \<Rightarrow>
         (case getResource_resume td ub kb tyb cb (Fulfilled rb) m3 of (e4, m4, res2) \<Rightarrow>
            res1 = Inr ra \<and> res2 = Inr rb \<and>
            Map_get (resources m4) kb =
              Some \<lparr>resource = rb, lastUsed = td, instanceId = ub, resourceType = tyb,
                    cacheKey = kb, cleanupFn = cb\<rparr> \<and>
            Map_get (resources m4) ka =
              (if ka = kb
               then Some \<lparr>resource = rb, lastUsed = td, instanceId = ub, resourceType = tyb,
                          cacheKey = kb, cleanupFn = cb\<rparr>
               else Some \<lparr>resource = ra, lastUsed = tc, instanceId = ua, resourceType = tya,
                          cacheKey = ka, cleanupFn = ca\<rparr>) \<and>
            (ka = kb \<and> ra \<noteq> rb \<and> ra \<notin> (resource \<circ> snd) ` set (resources m) \<longrightarrow>
               ra \<notin> (resource \<circ> snd) ` set (resources m4) \<and>
               ra \<notin> (resource \<circ> snd) ` set (cleanup_calls (fst (destroyAllNow call m4))) \<and>
               (\<forall>now. ra \<notin> (resource \<circ> snd) `
                    set (cleanup_calls (fst (cleanupInactiveResources call now m4))))))) \<and>
        (case getResource_resume tc ub kb tyb cb (Fulfilled rb) m2 of (e3, m3, res2) \<Rightarrow>
         (case getResource_resume td ua ka tya ca (Fulfilled ra) m3 of (e4, m4, res1) \<Rightarrow>
            res2 = Inr rb \<and> res1 = Inr ra \<and>
            Map_get (resources m3) kb =
              Some \<lparr>resource = rb, lastUsed = tc, instanceId = ub, resourceType = tyb,
                    cacheKey = kb, cleanupFn = cb\<rparr> \<and>
            Map_get (resources m4) ka =
              Some \<lparr>resource = ra, lastUsed = td, instanceId = ua, resourceType = tya,
                    cacheKey = ka, cleanupFn = ca\<rparr> \<and>
            Map_get (resources m4) kb =
              (if ka = kb
               then Some \<lparr>resource = ra, lastUsed = td, instanceId = ua, resourceType = tya,
                          cacheKey = ka, cleanupFn = ca\<rparr>
               else Some \<lparr>resource = rb, lastUsed = tc, instanceId = ub, resourceType = tyb,
                          cacheKey = kb, cleanupFn = cb\<rparr>)))))"
proof -
  let ?i1 = "\<lparr>resource = ra, lastUsed = tc, instanceId = ua, resourceType = tya,
                cacheKey = ka, cleanupFn = ca\<rparr>"
  let ?i2 = "\<lparr>resource = rb, lastUsed = td, instanceId = ub, resourceType = tyb,
                cacheKey = kb, cleanupFn = cb\<rparr>"
  let ?m4 = "m\<lparr>resources := Map_set (Map_set (resources m) ka ?i1) kb ?i2\<rparr>"
  have enter1: "getResource_enter ta ka tya fa m =
      ([Logged Log_info, Factory_called ka], m, Awaiting (Fulfilled ra))"
    using assms(1,3) by (simp add: getResource_enter_def)
  have enter2: "getResource_enter tb kb tyb fb m =
      ([Logged Log_info, Factory_called kb], m, Awaiting (Fulfilled rb))"
    using assms(2,4) by (simp add: getResource_enter_def)
  have orphan: "ra \<notin> (resource \<circ> snd) ` set (resources ?m4) \<and>
      ra \<notin> (resource \<circ> snd) ` set (cleanup_calls (fst (destroyAllNow call ?m4))) \<and>
      (\<forall>now. ra \<notin> (resource \<circ> snd) `
           set (cleanup_calls (fst (cleanupInactiveResources call now ?m4))))"
    if same: "ka = kb" and ne: "ra \<noteq> rb" and fresh: "ra \<notin> (resource \<circ> snd) ` set (resources m)"
  proof -
    have rs: "resources ?m4 = Map_set (resources m) kb ?i2"
      using same by (simp add: Map_set_twice)
    have "set (resources ?m4) \<subseteq> insert (kb, ?i2) (set (resources m))"
      unfolding rs by (rule set_Map_set)
    then have store: "ra \<notin> (resource \<circ> snd) ` set (resources ?m4)"
      using ne fresh by auto
    have "set (cleanup_calls (fst (cleanupInactiveResources call now ?m4))) \<subseteq> set (resources ?m4)" for now
    proof
      fix e assume e: "e \<in> set (cleanup_calls (fst (cleanupInactiveResources call now ?m4)))"
      obtain k i where ki: "e = (k, i)" by (cases e)
      then have "Map_get (resources ?m4) k = Some i" using e sweep_calls_live by fastforce
      then show "e \<in> set (resources ?m4)" using ki Map_get_Some_mem by fastforce
    qed
    then have "\<forall>now. ra \<notin> (resource \<circ> snd) `
           set (cleanup_calls (fst (cleanupInactiveResources call now ?m4)))"
      using store by blast
    moreover have "ra \<notin> (resource \<circ> snd) ` set (cleanup_calls (fst (destroyAllNow call ?m4)))"
      using store destroyAllNow_calls_subset[of call ?m4] by blast
    ultimately show ?thesis using store by blast
  qed
  show ?thesis
    unfolding enter1 enter2 prod.case
    using orphan
    by (simp add: getResource_resume_def Map_get_set)
qed

theorem concurrent_first_acquires_witness:
  "Map_get (resources manager_100) ''X'' = None \<and>
   factory_returning ''r1'' ''X'' = Fulfilled ''r1'' \<and>
   factory_returning ''r2'' ''X'' = Fulfilled ''r2'' \<and>
   (case getResource_enter 1 ''X'' ''avantage_client'' (factory_returning ''r1'') manager_100 of
      (e1, m1, w1) \<Rightarrow>
     (case getResource_enter 2 ''X'' ''avantage_client'' (factory_returning ''r2'') m1 of
        (e2, m2, w2) \<Rightarrow>
        factory_calls (e1 @ e2) = [''X'', ''X''] \<and>
        (case getResource_resume 3 ''id-1'' ''X'' ''avantage_client'' ''close1''
                (Fulfilled ''r1'') m2 of
           (e3, m3, res1) \<Rightarrow>
          (case getResource_resume 4 ''id-2'' ''X'' ''avantage_client'' ''close2''
                  (Fulfilled ''r2'') m3 of
             (e4, m4, res2) \<Rightarrow>
               res1 = Inr ''r1'' \<and> res2 = Inr ''r2'' \<and>
               resources m4 =
                 [(''X'', \<lparr>resource = ''r2'', lastUsed = 4, instanceId = ''id-2'',
                     resourceType = ''avantage_client'', cacheKey = ''X'',
                     cleanupFn = ''close2''\<rparr>)] \<and>
               cleanup_calls (fst (destroyAllNow cleanups_succeed m4)) =
                 [(''X'', \<lparr>resource = ''r2'', lastUsed = 4, instanceId = ''id-2'',
                     resourceType = ''avantage_client'', cacheKey = ''X'',
                     cleanupFn = ''close2''\<rparr>)]))))"
  using concurrent_first_acquires [where m = manager_100 and ka = "''X''" and kb = "''X''"
      and fa = "factory_returning ''r1''" and fb = "factory_returning ''r2''"
      and ra = "''r1''" and rb = "''r2''" and ta = 1 and tb = 2 and tc = 3
      and td = 4 and tya = "''avantage_client''" and tyb = "''avantage_client''"
      and ua = "''id-1''" and ub = "''id-2''" and ca = "''close1''"
      and cb = "''close2''" and call = cleanups_succeed]
  by (simp add: manager_100_eq acquire_defs destroy_defs factory_returning_def
      cleanups_succeed_def)

text \<open>
  Claim C10. When an entry is stored under \<open>key\<close>, \<open>getResource\<close> changes the field
  \<open>lastUsed\<close> of that entry and nothing else: the other fields of the entry, every other
  entry, the keys and their order stay. The cleanup function and the resource type given
  to the call are dropped: what a later \<open>destroyAllNow\<close> or sweep calls for the key is
  the cleanup function stored in the entry, on the resource stored in the entry (a
  \<open>destroyAllNow\<close> that returns has called it).
\<close>

theorem getResource_changes_only_lastUsed:
  assumes "Map_ok (resources m)"
    and "Map_get (resources m) key = Some info"
  shows "(case getResource now uuid key rtype factoryFn cleanup m of
            (effects, m', result) \<Rightarrow>
              m' = m\<lparr>resources := Map_set (resources m) key (info\<lparr>lastUsed := now\<rparr>)\<rparr> \<and>
              Map_get (resources m') key =
                Some \<lparr>resource = resource info, lastUsed = now, instanceId = instanceId info,
                      resourceType = resourceType info, cacheKey = cacheKey info,
                      cleanupFn = cleanupFn info\<rparr> \<and>
              (\<forall>k. k \<noteq> key \<longrightarrow> Map_get (resources m') k = Map_get (resources m) k) \<and>
              Map_keys (resources m') = Map_keys (resources m) \<and>
              (snd (snd (destroyAllNow call m')) = Inr () \<longrightarrow>
                 (key, info\<lparr>lastUsed := now\<rparr>)
                   \<in> set (cleanup_calls (fst (destroyAllNow call m')))) \<and>
              (\<forall>i. (key, i) \<in> set (cleanup_calls (fst (destroyAllNow call m'))) \<longrightarrow>
                    cleanupFn i = cleanupFn info \<and> resource i = resource info) \<and>
              (\<forall>i now'. (key, i) \<in> set (cleanup_calls (fst (cleanupInactiveResources call now' m'))) \<longrightarrow>
                    cleanupFn i = cleanupFn info \<and> resource i = resource info))"
proof -
  let ?rs = "Map_set (resources m) key (info\<lparr>lastUsed := now\<rparr>)"
  let ?m = "m\<lparr>resources := ?rs\<rparr>"
  have acq: "getResource now uuid key rtype factoryFn cleanup m =
      (Logged Log_debug # (if resourceType info \<noteq> rtype then [Logged Log_warn] else []),
       ?m, Inr (resource info))"
    using assms(2) by (simp add: getResource_def getResource_enter_def)
  have ok: "Map_ok ?rs" using assms(1) by (rule Map_ok_set)
  have get: "Map_get ?rs key = Some (info\<lparr>lastUsed := now\<rparr>)" by (simp add: Map_get_set)
  have keys: "Map_keys ?rs = Map_keys (resources m)"
    using assms(2) by (simp add: Map_keys_set Map_get_None_iff[symmetric])
  have shut: "\<And>i. (key, i) \<in> set ?rs \<Longrightarrow> i = info\<lparr>lastUsed := now\<rparr>"
  proof -
    fix i assume "(key, i) \<in> set ?rs"
    with ok have "Map_get ?rs key = Some i" by (rule Map_ok_mem_get)
    then show "i = info\<lparr>lastUsed := now\<rparr>" using get by simp
  qed
  have sweep: "\<And>i now'. (key, i) \<in> set (cleanup_calls (fst (cleanupInactiveResources call now' ?m)))
      \<Longrightarrow> i = info\<lparr>lastUsed := now\<rparr>"
  proof -
    fix i now'
    assume "(key, i) \<in> set (cleanup_calls (fst (cleanupInactiveResources call now' ?m)))"
    then have "Map_get (resources ?m) key = Some i" by (rule sweep_calls_live)
    then show "i = info\<lparr>lastUsed := now\<rparr>" using get by simp
  qed
  have fields: "info\<lparr>lastUsed := now\<rparr> =
      \<lparr>resource = resource info, lastUsed = now, instanceId = instanceId info,
       resourceType = resourceType info, cacheKey = cacheKey info, cleanupFn = cleanupFn info\<rparr>"
    by (cases info) simp
  have in_store: "(key, info\<lparr>lastUsed := now\<rparr>) \<in> set ?rs" using get by (rule Map_get_Some_mem)
  have c3: "\<forall>k. k \<noteq> key \<longrightarrow> Map_get ?rs k = Map_get (resources m) k"
    by (simp add: Map_get_set)
  have c5: "snd (snd (destroyAllNow call ?m)) = Inr () \<longrightarrow>
      (key, info\<lparr>lastUsed := now\<rparr>) \<in> set (cleanup_calls (fst (destroyAllNow call ?m)))"
    using in_store destroyAllNow_returned(1)[of call ?m] by simp
  have c6: "\<forall>i. (key, i) \<in> set (cleanup_calls (fst (destroyAllNow call ?m))) \<longrightarrow>
      cleanupFn i = cleanupFn info \<and> resource i = resource info"
  proof (intro allI impI)
    fix i assume "(key, i) \<in> set (cleanup_calls (fst (destroyAllNow call ?m)))"
    then have "(key, i) \<in> set ?rs" using destroyAllNow_calls_subset[of call ?m] by auto
    then have "i = info\<lparr>lastUsed := now\<rparr>" by (rule shut)
    then show "cleanupFn i = cleanupFn info \<and> resource i = resource info" by simp
  qed
  have c7: "\<forall>i now'. (key, i) \<in> set (cleanup_calls (fst (cleanupInactiveResources call now' ?m))) \<longrightarrow>
      cleanupFn i = cleanupFn info \<and> resource i = resource info"
  proof (intro allI impI)
    fix i now' assume "(key, i) \<in> set (cleanup_calls (fst (cleanupInactiveResources call now' ?m)))"
    then have "i = info\<lparr>lastUsed := now\<rparr>" by (rule sweep)
    then show "cleanupFn i = cleanupFn info \<and> resource i = resource info" by simp
  qed
  have c2: "Map_get ?rs key =
      Some \<lparr>resource = resource info, lastUsed = now, instanceId = instanceId info,
       resourceType = resourceType info, cacheKey = cacheKey info, cleanupFn = cleanupFn info\<rparr>"
    unfolding fields[symmetric] by (simp add: Map_get_set)
  have c1: "resources ?m = ?rs" by simp
  show ?thesis
    unfolding acq prod.case c1
    using c2 c3 keys c5 c6 c7 by blast
qed

theorem getResource_changes_only_lastUsed_witness:
  "Map_ok (resources manager_A) \<and>
   Map_get (resources manager_A) ''A'' = Some info_A \<and>
   (case getResource 7 ''id-9'' ''A'' ''other_type'' (factory_returning ''r9'') ''closeOther''
           manager_A of
      (effects, m', result) \<Rightarrow>
        resources m' = [(''A'', info_A\<lparr>lastUsed := 7\<rparr>)] \<and>
        cleanup_calls (fst (destroyAllNow cleanups_succeed m')) =
          [(''A'', \<lparr>resource = ''r1'', lastUsed = 7, instanceId = ''id-1'',
               resourceType = ''avantage_client'', cacheKey = ''A'', cleanupFn = ''closeA''\<rparr>)])"
  using getResource_changes_only_lastUsed [where m = manager_A and key = "''A''"
      and info = info_A and now = 7 and uuid = "''id-9''" and rtype = "''other_type''"
      and factoryFn = "factory_returning ''r9''" and cleanup = "''closeOther''"
      and call = cleanups_succeed]
  by (simp add: manager_A_eq info_A_def acquire_defs destroy_defs cleanups_succeed_def
      Map_ok_def Map_keys_def)

end
